theory Spec2Isabelle
  imports Main
begin

section \<open>Thrown values\<close>

text \<open>
  A thrown or rejected JavaScript value, with the \<open>name\<close> property that the \<open>catch\<close>
  block of \<open>Query._run\<close> inspects (a thrown value without the property has a name other
  than \<open>AbortError\<close>).
\<close>

datatype err = Err (err_name: string) (err_message: string)

section \<open>Reactive system\<close>

text \<open>
  The members of a signal's \<open>subs\<close> set and of \<open>_effectQueue\<close> are functions of two
  kinds: the \<open>runner\<close> closure of an effect, and the \<open>wrapper\<close> closure that
  \<open>subscribe\<close> creates. Both are named by a number.
\<close>

datatype sub = Runner nat | Wrapper nat

text \<open>
  The body \<open>fn\<close> of an effect is user code. What it does to the reactive system
  here is read a signal (and go on depending on the value read), write a signal, throw,
  or finish: a body is the tree of these steps. Signals are named by numbers. A body
  that creates or disposes effects, or subscribes, while it runs is outside this model.
\<close>

datatype 'v prog =
    Done
  | Throw err
  | Read nat "'v \<Rightarrow> 'v prog"
  | Write nat 'v "'v prog"

text \<open>
  The closure variables of \<open>signal(initial, options)\<close>: \<open>_val\<close>, \<open>subs\<close> and
  \<open>equals\<close>. A JavaScript \<open>Set\<close> is a list without duplicates in insertion order.
\<close>

record 'v signal_rec =
  val :: 'v
  subs :: "sub list"
  equals :: "'v \<Rightarrow> 'v \<Rightarrow> bool"

text \<open>
  The closure variables of \<open>effect(fn)\<close>: \<open>active\<close>, \<open>runner._deps\<close> (a set of
  \<open>subs\<close> sets, each named by its signal) and \<open>fn\<close>.
\<close>

record 'v effect_rec =
  active :: bool
  deps :: "nat list"
  body :: "'v prog"

text \<open>
  A wrapper \<open>() => fn(_val)\<close> made by \<open>subscribe(fn)\<close>: the signal whose \<open>_val\<close> it
  reads, and the user's callback, of which the model keeps whether it returns
  (\<open>None\<close>) or throws on a value.
\<close>

record 'v wrapper_rec =
  target :: nat
  callback :: "'v \<Rightarrow> err option"

text \<open>
  The module state: every signal, effect and wrapper created so far (by number; the
  \<open>next_\<close> fields are the first unused numbers), the globals \<open>_currentEffect\<close>,
  \<open>_effectStack\<close>, \<open>_effectQueue\<close> and \<open>_effectScheduled\<close>, the number of flush
  callbacks waiting in the host's microtask queue, and what \<open>console.error\<close> has
  printed.
\<close>

record 'v runtime =
  signals :: "nat \<Rightarrow> 'v signal_rec"
  effects :: "nat \<Rightarrow> 'v effect_rec"
  wrappers :: "nat \<Rightarrow> 'v wrapper_rec"
  next_signal :: nat
  next_effect :: nat
  next_wrapper :: nat
  currentEffect :: "nat option"
  effectStack :: "nat list"
  effectQueue :: "sub list"
  effectScheduled :: bool
  microtasks :: nat
  console :: "err list"

text \<open>\<open>Set.prototype.add\<close> and \<open>Set.prototype.delete\<close>.\<close>

definition set_add :: "'a \<Rightarrow> 'a list \<Rightarrow> 'a list" where
  "set_add x xs = (if x \<in> set xs then xs else xs @ [x])"

definition set_delete :: "'a \<Rightarrow> 'a list \<Rightarrow> 'a list" where
  "set_delete x xs = removeAll x xs"

text \<open>
  What a piece of code did, as seen from outside, in order: the flush called a queued
  function, a signal's getter returned a value, a signal's setter stored a value, a
  subscribed callback was called with a value, an exception was thrown.
\<close>

datatype 'v action =
    Invoked sub
  | Saw nat 'v
  | Wrote nat 'v
  | Got nat 'v
  | Raised err

text \<open>
  \<^verbatim>\<open>
  function scheduleEffect(effectFn) {
    _effectQueue.add(effectFn);
    if (_effectScheduled) return;
    _effectScheduled = true;
    queueMicrotaskSafe(() => { ... });
  }
  \<close>
  The callback handed to \<open>queueMicrotaskSafe\<close> is \<open>flush\<close> below.
\<close>

definition scheduleEffect :: "sub \<Rightarrow> 'v runtime \<Rightarrow> 'v runtime" where
  "scheduleEffect effectFn st =
     (let st1 = st\<lparr>effectQueue := set_add effectFn (effectQueue st)\<rparr>
      in if effectScheduled st1 then st1
         else st1\<lparr>effectScheduled := True, microtasks := microtasks st1 + 1\<rparr>)"

text \<open>
  The setter \<open>set value(v)\<close> of signal \<open>s\<close>. (The devtools hook \<open>_trackSignals\<close>
  is the empty function.)
\<close>

definition sig_write :: "nat \<Rightarrow> 'v \<Rightarrow> 'v runtime \<Rightarrow> 'v runtime" where
  "sig_write s v st =
     (let sg = signals st s
      in if equals sg (val sg) v then st
         else
           let st1 = st\<lparr>signals := (signals st)(s := sg\<lparr>val := v\<rparr>)\<rparr>
           in foldl (\<lambda>st' effectFn. scheduleEffect effectFn st') st1 (subs sg))"

text \<open>
  The getter \<open>get value()\<close> of signal \<open>s\<close>. (A runner always has its \<open>_deps\<close> set.)
\<close>

definition sig_read :: "nat \<Rightarrow> 'v runtime \<Rightarrow> 'v \<times> 'v runtime" where
  "sig_read s st =
     (case currentEffect st of
        None \<Rightarrow> (val (signals st s), st)
      | Some e \<Rightarrow>
          let sg = signals st s;
              st1 = st\<lparr>signals := (signals st)(s := sg\<lparr>subs := set_add (Runner e) (subs sg)\<rparr>)\<rparr>;
              ef = effects st1 e;
              st2 = st1\<lparr>effects := (effects st1)(e := ef\<lparr>deps := set_add s (deps ef)\<rparr>)\<rparr>
          in (val (signals st2 s), st2))"

text \<open>\<open>update(updater)\<close>: \<open>sig.value = updater(_val)\<close>, reading \<open>_val\<close> directly.\<close>

definition sig_update :: "nat \<Rightarrow> ('v \<Rightarrow> 'v) \<Rightarrow> 'v runtime \<Rightarrow> 'v runtime" where
  "sig_update s updater st = sig_write s (updater (val (signals st s))) st"

text \<open>
  \<open>subscribe(fn)\<close> on signal \<open>s\<close>: a new wrapper is added to \<open>subs\<close>. The result
  names the wrapper; \<open>unsubscribe\<close> is the function \<open>subscribe\<close> returns.
\<close>

definition subscribe :: "nat \<Rightarrow> ('v \<Rightarrow> err option) \<Rightarrow> 'v runtime \<Rightarrow> nat \<times> 'v runtime" where
  "subscribe s cb st =
     (let w = next_wrapper st;
          st1 = st\<lparr>wrappers := (wrappers st)(w := \<lparr>target = s, callback = cb\<rparr>),
                   next_wrapper := w + 1\<rparr>;
          sg = signals st1 s;
          st2 = st1\<lparr>signals := (signals st1)(s := sg\<lparr>subs := set_add (Wrapper w) (subs sg)\<rparr>)\<rparr>
      in (w, st2))"

definition unsubscribe :: "nat \<Rightarrow> 'v runtime \<Rightarrow> 'v runtime" where
  "unsubscribe w st =
     (let s = target (wrappers st w); sg = signals st s
      in st\<lparr>signals := (signals st)(s := sg\<lparr>subs := set_delete (Wrapper w) (subs sg)\<rparr>)\<rparr>)"

text \<open>\<open>signal(initial, options)\<close>: a new signal; the result names it.\<close>

definition signal :: "'v \<Rightarrow> ('v \<Rightarrow> 'v \<Rightarrow> bool) \<Rightarrow> 'v runtime \<Rightarrow> nat \<times> 'v runtime" where
  "signal initial eq st =
     (let s = next_signal st
      in (s, st\<lparr>signals := (signals st)(s := \<lparr>val = initial, subs = [], equals = eq\<rparr>),
                next_signal := s + 1\<rparr>))"

text \<open>
  Running a body: the state it leaves, what it did, and the exception it threw if any.
\<close>

primrec exec :: "'v prog \<Rightarrow> 'v runtime \<Rightarrow> 'v runtime \<times> 'v action list \<times> err option" where
  "exec Done st = (st, [], None)"
| "exec (Throw e) st = (st, [Raised e], Some e)"
| "exec (Read s k) st =
     (case sig_read s st of
        (v, st1) \<Rightarrow> (case exec (k v) st1 of (st2, tr, r) \<Rightarrow> (st2, Saw s v # tr, r)))"
| "exec (Write s v p) st =
     (case exec p (sig_write s v st) of
        (st2, tr, r) \<Rightarrow>
          (st2, (if equals (signals st s) (val (signals st s)) v then tr else Wrote s v # tr), r))"

text \<open>
  \<^verbatim>\<open>
  function cleanupEffect(effectFn) {
    if (!effectFn._deps) return;
    effectFn._deps.forEach(depSet => depSet.delete(effectFn));
    effectFn._deps.clear();
  }
  \<close>
  It is only ever called on runners, whose \<open>_deps\<close> is set when they are created.
\<close>

definition cleanupEffect :: "nat \<Rightarrow> 'v runtime \<Rightarrow> 'v runtime" where
  "cleanupEffect e st =
     (let st1 = foldl (\<lambda>st' s. st'\<lparr>signals := (signals st')
                          (s := (signals st' s)\<lparr>subs := set_delete (Runner e) (subs (signals st' s))\<rparr>)\<rparr>)
                  st (deps (effects st e))
      in st1\<lparr>effects := (effects st1)(e := (effects st1 e)\<lparr>deps := []\<rparr>)\<rparr>)"

text \<open>
  \<^verbatim>\<open>
  const runner = () => {
    if (!active) return;
    cleanupEffect(runner);
    _effectStack.push(runner);
    _currentEffect = runner;
    try { fn(); }
    finally {
      _effectStack.pop();
      _currentEffect = _effectStack[_effectStack.length - 1] || null;
    }
  };
  \<close>
\<close>

definition runner :: "nat \<Rightarrow> 'v runtime \<Rightarrow> 'v runtime \<times> 'v action list \<times> err option" where
  "runner e st =
     (if \<not> active (effects st e) then (st, [], None)
      else
        let st1 = cleanupEffect e st;
            st2 = st1\<lparr>effectStack := effectStack st1 @ [e]\<rparr>;
            st3 = st2\<lparr>currentEffect := Some e\<rparr>
        in case exec (body (effects st3 e)) st3 of
             (st4, tr, r) \<Rightarrow>
               let st5 = st4\<lparr>effectStack := butlast (effectStack st4)\<rparr>;
                   st6 = st5\<lparr>currentEffect :=
                             (if effectStack st5 = [] then None
                              else Some (last (effectStack st5)))\<rparr>
               in (st6, tr, r))"

text \<open>
  \<open>effect(fn)\<close>: the runner is created and run once. The result names the effect.
  \<open>dispose\<close> is the function \<open>effect\<close> returns.
\<close>

definition effect :: "'v prog \<Rightarrow> 'v runtime \<Rightarrow> nat \<times> 'v runtime \<times> 'v action list \<times> err option" where
  "effect fn st =
     (let e = next_effect st;
          st1 = st\<lparr>effects := (effects st)(e := \<lparr>active = True, deps = [], body = fn\<rparr>),
                   next_effect := e + 1\<rparr>
      in (e, runner e st1))"

definition dispose :: "nat \<Rightarrow> 'v runtime \<Rightarrow> 'v runtime" where
  "dispose e st =
     cleanupEffect e (st\<lparr>effects := (effects st)(e := (effects st e)\<lparr>active := False\<rparr>)\<rparr>)"

text \<open>The wrapper \<open>() => fn(_val)\<close>.\<close>

definition call_wrapper :: "nat \<Rightarrow> 'v runtime \<Rightarrow> 'v runtime \<times> 'v action list \<times> err option" where
  "call_wrapper w st =
     (let v = val (signals st (target (wrappers st w)))
      in case callback (wrappers st w) v of
           None \<Rightarrow> (st, [Got w v], None)
         | Some e \<Rightarrow> (st, [Got w v, Raised e], Some e))"

text \<open>Calling a member of the queue.\<close>

fun run_sub :: "sub \<Rightarrow> 'v runtime \<Rightarrow> 'v runtime \<times> 'v action list \<times> err option" where
  "run_sub (Runner e) st = runner e st"
| "run_sub (Wrapper w) st = call_wrapper w st"

text \<open>
  \<open>Array.prototype.forEach\<close>: the callback is applied to each element in turn; an
  exception thrown by the callback ends the loop and leaves it.
\<close>

fun forEach :: "('a \<Rightarrow> 's \<Rightarrow> 's \<times> 'v action list \<times> err option) \<Rightarrow> 'a list \<Rightarrow> 's
                \<Rightarrow> 's \<times> 'v action list \<times> err option" where
  "forEach f [] st = (st, [], None)"
| "forEach f (x # xs) st =
     (case f x st of
        (st1, tr1, Some e) \<Rightarrow> (st1, tr1, Some e)
      | (st1, tr1, None) \<Rightarrow>
          (case forEach f xs st1 of (st2, tr2, r) \<Rightarrow> (st2, tr1 @ tr2, r)))"

text \<open>
  The callback of the \<open>forEach\<close> in the flush:
  \<^verbatim>\<open>
  fn => { try { fn(); } catch (e) { console.error("[nquery] effect error", e); } }
  \<close>
\<close>

definition guarded :: "sub \<Rightarrow> 'v runtime \<Rightarrow> 'v runtime \<times> 'v action list \<times> err option" where
  "guarded effectFn st =
     (case run_sub effectFn st of
        (st1, tr, None) \<Rightarrow> (st1, Invoked effectFn # tr, None)
      | (st1, tr, Some e) \<Rightarrow> (st1\<lparr>console := console st1 @ [e]\<rparr>, Invoked effectFn # tr, None))"

text \<open>
  The microtask queued by \<open>scheduleEffect\<close>:
  \<^verbatim>\<open>
  () => {
    _effectScheduled = false;
    const toRun = Array.from(_effectQueue);
    _effectQueue.clear();
    toRun.forEach(fn => { ... });
  }
  \<close>
\<close>

definition flush :: "'v runtime \<Rightarrow> 'v runtime \<times> 'v action list \<times> err option" where
  "flush st =
     (let st1 = st\<lparr>effectScheduled := False\<rparr>;
          toRun = effectQueue st1;
          st2 = st1\<lparr>effectQueue := []\<rparr>
      in forEach guarded toRun st2)"

text \<open>
  The host runs the next waiting microtask, if there is one. (Only the flush callbacks
  are counted as microtasks here.)
\<close>

definition microtask :: "'v runtime \<Rightarrow> 'v runtime \<times> 'v action list \<times> err option" where
  "microtask st =
     (if microtasks st = 0 then (st, [], None)
      else flush (st\<lparr>microtasks := microtasks st - 1\<rparr>))"

text \<open>A synchronous turn of top-level code that writes signals one after the other.\<close>

definition turn :: "(nat \<times> 'v) list \<Rightarrow> 'v runtime \<Rightarrow> 'v runtime" where
  "turn ws st = foldl (\<lambda>st' (s, v). sig_write s v st') st ws"

text \<open>The module state when the module has just been loaded.\<close>

definition init :: "'v \<Rightarrow> 'v runtime" where
  "init d =
     \<lparr> signals = (\<lambda>_. \<lparr>val = d, subs = [], equals = (=)\<rparr>),
       effects = (\<lambda>_. \<lparr>active = False, deps = [], body = Done\<rparr>),
       wrappers = (\<lambda>_. \<lparr>target = 0, callback = (\<lambda>_. None)\<rparr>),
       next_signal = 0, next_effect = 0, next_wrapper = 0,
       currentEffect = None, effectStack = [], effectQueue = [],
       effectScheduled = False, microtasks = 0, console = [] \<rparr>"

section \<open>What a run did\<close>

text \<open>The functions the flush called, the signals read, the exceptions thrown, in order.\<close>

fun invocations :: "'v action list \<Rightarrow> sub list" where
  "invocations [] = []"
| "invocations (Invoked f # tr) = f # invocations tr"
| "invocations (a # tr) = invocations tr"

fun raised :: "'v action list \<Rightarrow> err list" where
  "raised [] = []"
| "raised (Raised e # tr) = e # raised tr"
| "raised (a # tr) = raised tr"


fun is_Wrote :: "'v action \<Rightarrow> bool" where
  "is_Wrote (Wrote s v) = True"
| "is_Wrote a = False"

text \<open>
  The values of all signals. A list of actions is \<open>consistent\<close> with the values \<open>f\<close>
  when every value it saw or received is the value the signal had at that point,
  starting from \<open>f\<close> and following the writes of the list itself (\<open>tg\<close> gives the
  signal of each wrapper); \<open>after\<close> gives the values at its end.
\<close>

definition vals :: "'v runtime \<Rightarrow> nat \<Rightarrow> 'v" where
  "vals st = (\<lambda>s. val (signals st s))"

definition apply_action :: "'v action \<Rightarrow> (nat \<Rightarrow> 'v) \<Rightarrow> (nat \<Rightarrow> 'v)" where
  "apply_action a f = (case a of Wrote s v \<Rightarrow> f(s := v) | _ \<Rightarrow> f)"

definition explained :: "(nat \<Rightarrow> nat) \<Rightarrow> 'v action \<Rightarrow> (nat \<Rightarrow> 'v) \<Rightarrow> bool" where
  "explained tg a f =
     (case a of Saw s v \<Rightarrow> f s = v | Got w v \<Rightarrow> f (tg w) = v | _ \<Rightarrow> True)"

fun after :: "'v action list \<Rightarrow> (nat \<Rightarrow> 'v) \<Rightarrow> (nat \<Rightarrow> 'v)" where
  "after [] f = f"
| "after (a # tr) f = after tr (apply_action a f)"

fun consistent :: "(nat \<Rightarrow> nat) \<Rightarrow> 'v action list \<Rightarrow> (nat \<Rightarrow> 'v) \<Rightarrow> bool" where
  "consistent tg [] f = True"
| "consistent tg (a # tr) f = (explained tg a f \<and> consistent tg tr (apply_action a f))"

text \<open>Nothing is waiting to run: the state in which a synchronous turn starts.\<close>

definition quiescent :: "'v runtime \<Rightarrow> bool" where
  "quiescent st = (effectQueue st = [] \<and> \<not> effectScheduled st \<and> microtasks st = 0)"

text \<open>
  The scheduler's bookkeeping is in order: the queue has no duplicates, one flush is
  waiting in the microtask queue exactly when \<open>_effectScheduled\<close> is set, and a
  non-empty queue has its flush scheduled.
\<close>

definition sched_ok :: "'v runtime \<Rightarrow> bool" where
  "sched_ok st =
     (distinct (effectQueue st) \<and>
      microtasks st = (if effectScheduled st then 1 else 0) \<and>
      (effectQueue st = [] \<or> effectScheduled st))"

text \<open>
  For a signal observed through \<open>subscribe\<close>: whether a subscriber is a wrapper, the
  values a wrapper's callback was called with, and the writes of a sequence that the
  setter commits (those not equal, under \<open>eq\<close>, to the value current at that moment).
  \<open>write_each_turn\<close> writes the values one per turn, the host running the waiting
  microtask after each write.
\<close>

fun is_Wrapper :: "sub \<Rightarrow> bool" where
  "is_Wrapper (Wrapper w) = True"
| "is_Wrapper (Runner e) = False"

fun got :: "nat \<Rightarrow> 'v action list \<Rightarrow> 'v list" where
  "got w [] = []"
| "got w (Got w' v # tr) = (if w' = w then v # got w tr else got w tr)"
| "got w (a # tr) = got w tr"

fun committed :: "('v \<Rightarrow> 'v \<Rightarrow> bool) \<Rightarrow> 'v \<Rightarrow> 'v list \<Rightarrow> 'v list" where
  "committed eq cur [] = []"
| "committed eq cur (v # vs) =
     (if eq cur v then committed eq cur vs else v # committed eq v vs)"

fun write_each_turn :: "nat \<Rightarrow> 'v list \<Rightarrow> 'v runtime \<Rightarrow> 'v runtime \<times> 'v action list" where
  "write_each_turn s [] st = (st, [])"
| "write_each_turn s (v # vs) st =
     (case microtask (sig_write s v st) of
        (st1, tr1, r1) \<Rightarrow>
          (case write_each_turn s vs st1 of (st2, tr2) \<Rightarrow> (st2, tr1 @ tr2)))"

section \<open>Example programs\<close>

text \<open>
  Small programs built with the library's own functions from the freshly loaded module,
  with integer signals under the default equality:
  \<^item> \<open>rt3\<close>: one signal and three effects that read it; the second throws when the
    value is not 0;
  \<^item> \<open>rt_cond\<close>: three signals and one effect that reads the first and then, depending
    on its value, the second or the third;
  \<^item> \<open>rt_two\<close>: two signals and one effect that reads both;
  \<^item> \<open>rt_chain\<close>: two signals and two effects; the first effect reads the first
    signal and writes its value plus one to the second signal (as a \<open>computed\<close> does),
    the second effect reads both signals;
  \<^item> \<open>rt_sub\<close>: one signal with one callback registered by \<open>subscribe\<close>.
\<close>

definition rt3 :: "int runtime" where
  "rt3 =
     (case signal 0 (=) (init 0) of (s, st1) \<Rightarrow>
      case effect (Read s (\<lambda>v. Done)) st1 of (e0, st2, tr0, r0) \<Rightarrow>
      case effect (Read s (\<lambda>v. if v = 0 then Done else Throw (Err ''Error'' ''boom''))) st2 of (e1, st3, tr1, r1) \<Rightarrow>
      case effect (Read s (\<lambda>v. Done)) st3 of (e2, st4, tr2, r2) \<Rightarrow> st4)"


definition rt_two :: "int runtime" where
  "rt_two =
     (case signal 0 (=) (init 0) of (a, st1) \<Rightarrow>
      case signal 0 (=) st1 of (b, st2) \<Rightarrow>
      case effect (Read a (\<lambda>x. Read b (\<lambda>y. Done))) st2 of (e, st3, tr, r) \<Rightarrow> st3)"

definition rt_chain :: "int runtime" where
  "rt_chain =
     (case signal 0 (=) (init 0) of (a, st1) \<Rightarrow>
      case signal 0 (=) st1 of (b, st2) \<Rightarrow>
      case effect (Read a (\<lambda>x. Write b (x + 1) Done)) st2 of (e0, st3, tr0, r0) \<Rightarrow>
      case effect (Read a (\<lambda>x. Read b (\<lambda>y. Done))) st3 of (e1, st4, tr1, r1) \<Rightarrow> st4)"

definition rt_sub :: "int runtime" where
  "rt_sub =
     (case signal 0 (=) (init 0) of (s, st1) \<Rightarrow>
      case subscribe s (\<lambda>v. None) st1 of (w, st2) \<Rightarrow> st2)"

section \<open>Cache keys and \<open>hashKey\<close>\<close>

text \<open>
  A cache key is any JSON-like JavaScript value. Numbers are the integral ones
  (non-integral doubles are outside this model); an object is the list of its own
  properties in insertion order. Strings are lists of 8-bit characters.
\<close>

datatype key =
    KStr string
  | KNum int
  | KBool bool
  | KNull
  | KArr "key list"
  | KObj "(string \<times> key) list"

text \<open>Decimal digits of a natural number, as \<open>Number.prototype.toString\<close> prints them.\<close>

fun digits :: "nat \<Rightarrow> string" where
  "digits n = (if n < 10 then [''0123456789'' ! n]
               else digits (n div 10) @ [''0123456789'' ! (n mod 10)])"

definition show_int :: "int \<Rightarrow> string" where
  "show_int i = (if i < 0 then CHR ''-'' # digits (nat (- i)) else digits (nat i))"

text \<open>
  The quoting \<open>JSON.stringify\<close> applies to a string: the double quote and the backslash
  are escaped, a control character below 0x20 becomes its short escape or \<open>\u00XX\<close>.
\<close>

definition hex2 :: "nat \<Rightarrow> string" where
  "hex2 n = [''0123456789abcdef'' ! ((n div 16) mod 16), ''0123456789abcdef'' ! (n mod 16)]"

definition escape_char :: "char \<Rightarrow> string" where
  "escape_char c =
     (if c = CHR 0x22 then [CHR 0x5C, CHR 0x22]
      else if c = CHR 0x5C then [CHR 0x5C, CHR 0x5C]
      else if c = CHR 0x08 then [CHR 0x5C, CHR ''b'']
      else if c = CHR 0x09 then [CHR 0x5C, CHR ''t'']
      else if c = CHR 0x0A then [CHR 0x5C, CHR ''n'']
      else if c = CHR 0x0C then [CHR 0x5C, CHR ''f'']
      else if c = CHR 0x0D then [CHR 0x5C, CHR ''r'']
      else if (of_char c :: nat) < 32 then [CHR 0x5C, CHR ''u'', CHR ''0'', CHR ''0''] @ hex2 (of_char c)
      else [c])"

definition quote :: "string \<Rightarrow> string" where
  "quote s = [CHR 0x22] @ concat (map escape_char s) @ [CHR 0x22]"

fun join_comma :: "string list \<Rightarrow> string" where
  "join_comma [] = []"
| "join_comma [x] = x"
| "join_comma (x # y # ys) = x @ '','' @ join_comma (y # ys)"

text \<open>
  \<open>JSON.stringify\<close> on the values of type \<open>key\<close>. On these values it never throws
  (no cycles, no BigInt) and never returns \<open>undefined\<close>.
\<close>

fun JSON_stringify :: "key \<Rightarrow> string" where
  "JSON_stringify (KStr s) = quote s"
| "JSON_stringify (KNum i) = show_int i"
| "JSON_stringify (KBool b) = (if b then ''true'' else ''false'')"
| "JSON_stringify KNull = ''null''"
| "JSON_stringify (KArr xs) = ''['' @ join_comma (map JSON_stringify xs) @ '']''"
| "JSON_stringify (KObj kvs) =
     ''{'' @ join_comma (map (\<lambda>(k, v). quote k @ '':'' @ JSON_stringify v) kvs) @ ''}''"

text \<open>
  \<^verbatim>\<open>
  const hashKey = key => {
    if (isStr(key)) return key;
    try { return JSON.stringify(key); } catch { return String(key); }
  };
  \<close>
  \<open>isStr(key)\<close> is \<open>typeof key === "string"\<close>: the first equation. The \<open>catch\<close>
  branch is unreachable on values of type \<open>key\<close>.
\<close>

fun hashKey :: "key \<Rightarrow> string" where
  "hashKey (KStr s) = s"
| "hashKey k = JSON_stringify k"

section \<open>Query\<close>

datatype status = Idle | Loading | Success | Error

text \<open>
  Values of type \<open>'v option\<close> are JavaScript values with \<open>None\<close> for \<open>undefined\<close>.
  The callbacks and \<open>select\<close> are user functions: all that \<open>_run\<close> depends on is
  whether a call returns (and what) or throws (and what). A callback yields \<open>None\<close>
  when it returns and \<open>Some e\<close> when it throws \<open>e\<close>; \<open>select\<close> yields \<open>Inr\<close> the
  selected value or \<open>Inl\<close> the thrown one. An absent option field is \<open>None\<close>.
  \<open>initialFetch\<close> holds \<open>options.initialFetch !== false\<close>.
\<close>

record 'v options =
  initialData :: "'v option"
  staleTime :: "int option"
  select :: "('v option \<Rightarrow> err + 'v option) option"
  onSuccess :: "('v option \<Rightarrow> err option) option"
  onError :: "(err \<Rightarrow> err option) option"
  onSettled :: "('v option \<Rightarrow> err option \<Rightarrow> err option) option"
  keepPreviousData :: bool
  forceRefetch :: bool
  initialFetch :: bool

text \<open>
  What a Query reads from outside itself: the client's \<open>defaultOptions\<close> and whether the
  host defines \<open>AbortController\<close>.
\<close>

record 'v env =
  hasAbortController :: bool
  defaultStaleTime :: int
  defaultSelect :: "('v option \<Rightarrow> err + 'v option) option"

text \<open>Calls the Query makes to user code, in order.\<close>

datatype 'v call =
    Fetch nat
  | OnSuccess "'v option"
  | OnError err
  | OnSettled "'v option" "err option"

text \<open>
  The fields of a \<open>Query\<close>. The four signals \<open>data\<close>, \<open>error\<close>, \<open>status\<close> and
  \<open>isFetching\<close> are represented by their current values (they are created with the
  default equality \<open>===\<close>, so a write always leaves the written value in place).
  \<open>abortController\<close> is the request id the current controller was created for;
  \<open>aborted\<close> lists the controllers on which \<open>abort()\<close> was called. \<open>calls\<close> records
  the calls into user code. \<open>fetcher\<close> names the user's fetch function. \<open>requestId\<close>
  is a natural number (the source's counter is a JavaScript number, exact up to
  \<open>2^53\<close>); times are integers, as \<open>Date.now()\<close> returns them.
\<close>

record 'v Query =
  key :: key
  hash :: string
  fetcher :: nat
  options :: "'v options"
  data :: "'v option"
  error :: "err option"
  status :: status
  isFetching :: bool
  lastUpdated :: int
  requestId :: nat
  abortController :: "nat option"
  aborted :: "nat list"
  subCount :: nat
  calls :: "'v call list"

text \<open>
  The constructor. (\<open>_setupRefetchInterval\<close> only installs a timer and touches none of
  these fields.)
\<close>

definition new_Query :: "key \<Rightarrow> nat \<Rightarrow> 'v options \<Rightarrow> 'v Query" where
  "new_Query k f opts =
     \<lparr> key = k, hash = hashKey k, fetcher = f, options = opts,
       data = initialData opts, error = None,
       status = (if initialData opts \<noteq> None then Success else Idle),
       isFetching = False, lastUpdated = 0, requestId = 0,
       abortController = None, aborted = [], subCount = 0, calls = [] \<rparr>"

text \<open>\<open>get staleTime()\<close> and \<open>get select()\<close>: the option, else the client's default.\<close>

definition get_staleTime :: "'v env \<Rightarrow> 'v Query \<Rightarrow> int" where
  "get_staleTime env q =
     (case staleTime (options q) of Some s \<Rightarrow> s | None \<Rightarrow> defaultStaleTime env)"

definition get_select :: "'v env \<Rightarrow> 'v Query \<Rightarrow> ('v option \<Rightarrow> err + 'v option) option" where
  "get_select env q =
     (case select (options q) of Some f \<Rightarrow> Some f | None \<Rightarrow> defaultSelect env)"

text \<open>\<open>isStale()\<close>, with \<open>t\<close> the value of \<open>now()\<close>.\<close>

definition isStale :: "'v env \<Rightarrow> int \<Rightarrow> 'v Query \<Rightarrow> bool" where
  "isStale env t q = (t - lastUpdated q > get_staleTime env q)"

text \<open>
  \<open>_run\<close> is an \<open>async\<close> function with one \<open>await\<close>. It is modelled by its two
  synchronous halves. \<open>run_start\<close> is the part up to the \<open>await\<close>: it either returns the
  cached value at once, or starts an attempt (the fetcher is called) and suspends,
  holding \<open>currentId\<close>. \<open>run_resolve\<close> is the part after the \<open>await\<close>, run when the
  fetcher's promise settles. Between the two, any other code may run.
\<close>

datatype 'v started = Cached "'v option" | Pending nat

datatype 'v outcome = Fulfilled "'v option" | Failed err

text \<open>How the promise returned by \<open>_run\<close> settles.\<close>

datatype 'v settled = Resolved "'v option" | Rejected err

definition run_start :: "'v env \<Rightarrow> bool \<Rightarrow> int \<Rightarrow> 'v Query \<Rightarrow> 'v started \<times> 'v Query" where
  "run_start env force t q =
     (let allowStale = (\<not> force \<and> \<not> isStale env t q \<and> status q = Success
                         \<and> \<not> forceRefetch (options q))
      in if allowStale then (Cached (data q), q)
         else
           let currentId = requestId q + 1;
               q1 = q\<lparr>requestId := currentId\<rparr>;
               q2 = (case abortController q1 of
                       Some c \<Rightarrow> q1\<lparr>aborted := aborted q1 @ [c]\<rparr>
                     | None \<Rightarrow> q1);
               q3 = q2\<lparr>abortController :=
                         (if hasAbortController env then Some currentId else None)\<rparr>;
               isBackground = (status q3 = Success);
               q4 = q3\<lparr>isFetching := True\<rparr>;
               q5 = (if \<not> isBackground \<or> \<not> keepPreviousData (options q4)
                     then q4\<lparr>status := Loading\<rparr> else q4);
               q6 = q5\<lparr>calls := calls q5 @ [Fetch currentId]\<rparr>
           in (Pending currentId, q6))"

text \<open>
  An optional callback call \<open>f?.(x)\<close>: nothing happens when the option is absent;
  otherwise the call is recorded and its result is whether it threw.
\<close>

definition call_opt :: "('a \<Rightarrow> err option) option \<Rightarrow> 'a \<Rightarrow> 'v call \<Rightarrow> 'v Query \<Rightarrow> err option \<times> 'v Query" where
  "call_opt cb x c q =
     (case cb of
        None \<Rightarrow> (None, q)
      | Some f \<Rightarrow> (f x, q\<lparr>calls := calls q @ [c]\<rparr>))"

definition call_onSettled :: "'v option \<Rightarrow> err option \<Rightarrow> 'v Query \<Rightarrow> err option \<times> 'v Query" where
  "call_onSettled x e q =
     (case onSettled (options q) of
        None \<Rightarrow> (None, q)
      | Some f \<Rightarrow> (f x e, q\<lparr>calls := calls q @ [OnSettled x e]\<rparr>))"

text \<open>
  The \<open>try\<close> block from the point where the \<open>await\<close> has produced \<open>raw\<close>. The result
  is \<open>Inr\<close> the returned value, or \<open>Inl\<close> the exception that leaves the block; the
  Query is returned as the block left it in both cases.
\<close>

definition try_body :: "'v env \<Rightarrow> nat \<Rightarrow> 'v option \<Rightarrow> int \<Rightarrow> 'v Query \<Rightarrow> (err + 'v option) \<times> 'v Query" where
  "try_body env currentId raw t q =
     (if currentId \<noteq> requestId q then (Inr (data q), q)
      else
        case (case get_select env q of Some f \<Rightarrow> f raw | None \<Rightarrow> Inr raw) of
          Inl e \<Rightarrow> (Inl e, q)
        | Inr selected \<Rightarrow>
            let q1 = q\<lparr>data := selected\<rparr>;
                q2 = q1\<lparr>status := Success\<rparr>;
                q3 = q2\<lparr>error := None\<rparr>;
                q4 = q3\<lparr>lastUpdated := t\<rparr>;
                q5 = q4\<lparr>isFetching := False\<rparr>
            in (case call_opt (onSuccess (options q5)) selected (OnSuccess selected) q5 of
                  (Some e, q6) \<Rightarrow> (Inl e, q6)
                | (None, q6) \<Rightarrow>
                    (case call_onSettled selected None q6 of
                       (Some e, q7) \<Rightarrow> (Inl e, q7)
                     | (None, q7) \<Rightarrow> (Inr selected, q7))))"

text \<open>The \<open>catch (e)\<close> block.\<close>

definition catch_body :: "nat \<Rightarrow> err \<Rightarrow> 'v Query \<Rightarrow> 'v settled \<times> 'v Query" where
  "catch_body currentId e q =
     (if abortController q \<noteq> None \<and> err_name e = ''AbortError'' then (Resolved (data q), q)
      else if currentId \<noteq> requestId q then (Resolved (data q), q)
      else
        let q1 = q\<lparr>error := Some e\<rparr>;
            q2 = q1\<lparr>status := Error\<rparr>;
            q3 = q2\<lparr>isFetching := False\<rparr>
        in (case call_opt (onError (options q3)) e (OnError e) q3 of
              (Some e', q4) \<Rightarrow> (Rejected e', q4)
            | (None, q4) \<Rightarrow>
                (case call_onSettled None (Some e) q4 of
                   (Some e', q5) \<Rightarrow> (Rejected e', q5)
                 | (None, q5) \<Rightarrow> (Rejected e, q5))))"

text \<open>
  The continuation of \<open>_run\<close> after the \<open>await\<close>: the fetcher's promise settled with
  \<open>out\<close> at time \<open>t\<close>; \<open>currentId\<close> is the id captured before the \<open>await\<close>.
\<close>

definition run_resolve :: "'v env \<Rightarrow> nat \<Rightarrow> 'v outcome \<Rightarrow> int \<Rightarrow> 'v Query \<Rightarrow> 'v settled \<times> 'v Query" where
  "run_resolve env currentId out t q =
     (case out of
        Failed e \<Rightarrow> catch_body currentId e q
      | Fulfilled raw \<Rightarrow>
          (case try_body env currentId raw t q of
             (Inr v, q') \<Rightarrow> (Resolved v, q')
           | (Inl e, q') \<Rightarrow> catch_body currentId e q'))"

text \<open>\<open>refetch(force)\<close> is \<open>_run(force)\<close>; its synchronous half:\<close>

definition refetch :: "'v env \<Rightarrow> bool \<Rightarrow> int \<Rightarrow> 'v Query \<Rightarrow> 'v started \<times> 'v Query" where
  "refetch env force t q = run_start env force t q"

text \<open>
  What can happen to a Query over time: a call of \<open>_run\<close> (its synchronous half), or
  the settling of the fetch of some earlier attempt \<open>i\<close>. A history is any list of
  these, in any order: nothing constrains when, or whether, a fetch settles.
\<close>

datatype 'v event = Run bool int | Settle nat "'v outcome" int

fun step :: "'v env \<Rightarrow> 'v Query \<Rightarrow> 'v event \<Rightarrow> 'v Query" where
  "step env q (Run force t) = snd (run_start env force t q)"
| "step env q (Settle i out t) = snd (run_resolve env i out t q)"

definition steps :: "'v env \<Rightarrow> 'v event list \<Rightarrow> 'v Query \<Rightarrow> 'v Query" where
  "steps env evs q = foldl (step env) q evs"

text \<open>The number of times the fetcher was called.\<close>

fun is_Fetch :: "'v call \<Rightarrow> bool" where
  "is_Fetch (Fetch i) = True"
| "is_Fetch c = False"

definition fetch_count :: "'v Query \<Rightarrow> nat" where
  "fetch_count q = length (filter is_Fetch (calls q))"

text \<open>
  Whether the optional callbacks, when present, return normally (do not throw) on the
  arguments \<open>_run\<close> passes them.
\<close>

definition onSuccess_returns :: "'v options \<Rightarrow> 'v option \<Rightarrow> bool" where
  "onSuccess_returns opts x = (case onSuccess opts of None \<Rightarrow> True | Some f \<Rightarrow> f x = None)"

definition onError_returns :: "'v options \<Rightarrow> err \<Rightarrow> bool" where
  "onError_returns opts e = (case onError opts of None \<Rightarrow> True | Some f \<Rightarrow> f e = None)"

definition onSettled_returns :: "'v options \<Rightarrow> 'v option \<Rightarrow> err option \<Rightarrow> bool" where
  "onSettled_returns opts x e = (case onSettled opts of None \<Rightarrow> True | Some f \<Rightarrow> f x e = None)"

section \<open>QueryClient\<close>

text \<open>
  Query objects live in a heap, so that two Queries with equal fields are still two
  objects: \<open>queries\<close> is the \<open>Map\<close> from hash to the address of the Query, \<open>next_addr\<close>
  the next unused address.
\<close>

record 'v QueryClient =
  queries :: "string \<rightharpoonup> nat"
  heap :: "nat \<rightharpoonup> 'v Query"
  next_addr :: nat
  cenv :: "'v env"

text \<open>
  \<^verbatim>\<open>
  createQuery(key, fetcher, options = {}) {
    const hash = hashKey(key);
    const existing = this.queries.get(hash);
    if (existing) return existing;
    const q = new Query(this, key, fetcher, options);
    this.queries.set(hash, q);
    if (options.initialFetch !== false) q.refetch(true).catch(() => {});
    return q;
  }
  \<close>
  The result is the address of the returned Query. \<open>t\<close> is the clock, which a forced
  \<open>refetch\<close> does not read.
\<close>

definition createQuery :: "key \<Rightarrow> nat \<Rightarrow> 'v options \<Rightarrow> int \<Rightarrow> 'v QueryClient \<Rightarrow> nat \<times> 'v QueryClient" where
  "createQuery k f opts t c =
     (let h = hashKey k
      in case queries c h of
           Some existing \<Rightarrow> (existing, c)
         | None \<Rightarrow>
             let a = next_addr c;
                 q = new_Query k f opts;
                 q' = (if initialFetch opts then snd (refetch (cenv c) True t q) else q)
             in (a, c\<lparr>queries := (queries c)(h \<mapsto> a),
                      heap := (heap c)(a \<mapsto> q'),
                      next_addr := a + 1\<rparr>))"

text \<open>
  The constructor of \<open>QueryClient\<close> with no options (\<open>staleTime: 60_000\<close>,
  \<open>select: null\<close>), on a host that may or may not define \<open>AbortController\<close>, and the
  options object \<open>{}\<close>.
\<close>

definition new_QueryClient :: "bool \<Rightarrow> 'v QueryClient" where
  "new_QueryClient ac =
     \<lparr> queries = Map.empty, heap = Map.empty, next_addr = 0,
       cenv = \<lparr> hasAbortController = ac, defaultStaleTime = 60000, defaultSelect = None \<rparr> \<rparr>"

definition no_options :: "'v options" where
  "no_options =
     \<lparr> initialData = None, staleTime = None, select = None, onSuccess = None,
       onError = None, onSettled = None, keepPreviousData = False, forceRefetch = False,
       initialFetch = True \<rparr>"

definition getQuery :: "key \<Rightarrow> 'v QueryClient \<Rightarrow> nat option" where
  "getQuery k c = queries c (hashKey k)"

text \<open>
  For the examples: the environment of a default QueryClient on a host with
  \<open>AbortController\<close>, and the Query \<open>new Query(client, "k", fetcher, {})\<close>.
\<close>

definition env0 :: "int env" where
  "env0 = cenv (new_QueryClient True)"

definition q_fresh :: "int Query" where
  "q_fresh = new_Query (KStr ''k'') 0 no_options"

section \<open>Properties of the reactive system\<close>

subsection \<open>What the primitive operations leave alone\<close>

lemmas rt_eval = init_def signal_def effect_def runner_def cleanupEffect_def sig_read_def sig_write_def
  scheduleEffect_def set_add_def set_delete_def flush_def guarded_def call_wrapper_def subscribe_def
  microtask_def turn_def quiescent_def vals_def Let_def



lemma schedule_all_frame:
  "signals (foldl (\<lambda>st' f. scheduleEffect f st') st fs) = signals st \<and>
   effects (foldl (\<lambda>st' f. scheduleEffect f st') st fs) = effects st \<and>
   wrappers (foldl (\<lambda>st' f. scheduleEffect f st') st fs) = wrappers st \<and>
   currentEffect (foldl (\<lambda>st' f. scheduleEffect f st') st fs) = currentEffect st \<and>
   effectStack (foldl (\<lambda>st' f. scheduleEffect f st') st fs) = effectStack st"
  by (induction fs arbitrary: st) (simp_all add: scheduleEffect_def Let_def)

lemma sig_write_frame:
  "effects (sig_write s v st) = effects st \<and>
   wrappers (sig_write s v st) = wrappers st \<and>
   currentEffect (sig_write s v st) = currentEffect st \<and>
   effectStack (sig_write s v st) = effectStack st \<and>
   subs (signals (sig_write s v st) s') = subs (signals st s') \<and>
   equals (signals (sig_write s v st) s') = equals (signals st s')"
  by (simp add: sig_write_def Let_def schedule_all_frame)

subsection \<open>The flush\<close>

lemma invocations_append: "invocations (xs @ ys) = invocations xs @ invocations ys"
  by (induction xs rule: invocations.induct) simp_all

lemma raised_append: "raised (xs @ ys) = raised xs @ raised ys"
  by (induction xs rule: raised.induct) simp_all

lemma console_scheduleEffect: "console (scheduleEffect f st) = console st"
  by (simp add: scheduleEffect_def Let_def)

lemma console_schedule_all:
  "console (foldl (\<lambda>st' f. scheduleEffect f st') st fs) = console st"
  by (induction fs arbitrary: st) (simp_all add: console_scheduleEffect)

lemma console_sig_write: "console (sig_write s v st) = console st"
  by (simp add: sig_write_def Let_def console_schedule_all)

lemma console_sig_read: "console (snd (sig_read s st)) = console st"
  by (simp add: sig_read_def Let_def split: option.splits)

lemma exec_console_raised:
  "exec p st = (st', tr, r) \<Longrightarrow>
     console st' = console st \<and> invocations tr = [] \<and>
     raised tr = (case r of None \<Rightarrow> [] | Some e \<Rightarrow> [e])"
proof (induction p arbitrary: st st' tr r)
  case Done
  then show ?case by simp
next
  case (Throw e)
  then show ?case by auto
next
  case (Read s k)
  obtain v st1 where rd: "sig_read s st = (v, st1)" by (cases "sig_read s st")
  obtain st2 tr2 r2 where ex: "exec (k v) st1 = (st2, tr2, r2)" by (cases "exec (k v) st1")
  from rd have "console st1 = console st" using console_sig_read [of s st] by simp
  moreover from Read.IH [OF _ ex] have "console st2 = console st1 \<and> invocations tr2 = [] \<and>
     raised tr2 = (case r2 of None \<Rightarrow> [] | Some e \<Rightarrow> [e])" by simp
  ultimately show ?case using Read.prems rd ex by auto
next
  case (Write s v p)
  obtain st2 tr2 r2 where ex: "exec p (sig_write s v st) = (st2, tr2, r2)"
    by (cases "exec p (sig_write s v st)")
  from Write.IH [OF ex] show ?case using Write.prems ex
    by (auto simp: console_sig_write split: if_splits)
qed

lemma console_cleanupEffect: "console (cleanupEffect e st) = console st"
proof -
  have "\<And>st. console (foldl (\<lambda>st' s. st'\<lparr>signals := (signals st')
                          (s := (signals st' s)\<lparr>subs := set_delete (Runner e) (subs (signals st' s))\<rparr>)\<rparr>)
                  st ds) = console st" for ds :: "nat list"
    by (induction ds) simp_all
  then show ?thesis by (simp add: cleanupEffect_def Let_def)
qed

lemma runner_console_raised:
  assumes "runner e st = (st', tr, r)"
  shows "console st' = console st \<and> invocations tr = [] \<and>
         raised tr = (case r of None \<Rightarrow> [] | Some e \<Rightarrow> [e])"
proof (cases "active (effects st e)")
  case False
  with assms show ?thesis by (simp add: runner_def)
next
  case True
  let ?st3 = "cleanupEffect e st\<lparr>effectStack := effectStack (cleanupEffect e st) @ [e],
                                 currentEffect := Some e\<rparr>"
  obtain st4 tr4 r4 where ex: "exec (body (effects ?st3 e)) ?st3 = (st4, tr4, r4)"
    by (cases "exec (body (effects ?st3 e)) ?st3")
  from exec_console_raised [OF ex] have "console st4 = console st \<and> invocations tr4 = [] \<and>
     raised tr4 = (case r4 of None \<Rightarrow> [] | Some e \<Rightarrow> [e])"
    by (simp add: console_cleanupEffect)
  then show ?thesis using assms True ex by (auto simp: runner_def Let_def)
qed

lemma run_sub_console_raised:
  assumes "run_sub f st = (st', tr, r)"
  shows "console st' = console st \<and> invocations tr = [] \<and>
         raised tr = (case r of None \<Rightarrow> [] | Some e \<Rightarrow> [e])"
proof (cases f)
  case (Runner e)
  with assms show ?thesis using runner_console_raised by simp
next
  case (Wrapper w)
  with assms show ?thesis by (auto simp: call_wrapper_def Let_def split: option.splits)
qed

lemma guarded_catches:
  assumes "guarded f st = (st', tr, r)"
  shows "r = None \<and> invocations tr = [f] \<and> console st' = console st @ raised tr"
proof -
  obtain st1 tr1 r1 where rs: "run_sub f st = (st1, tr1, r1)" by (cases "run_sub f st")
  from run_sub_console_raised [OF rs] show ?thesis
    using assms rs by (cases r1) (auto simp: guarded_def)
qed

lemma forEach_guarded:
  "forEach guarded fs st = (st', tr, r) \<Longrightarrow>
     r = None \<and> invocations tr = fs \<and> console st' = console st @ raised tr"
proof (induction fs arbitrary: st st' tr r)
  case Nil
  then show ?case by simp
next
  case (Cons f fs)
  obtain st1 tr1 r1 where g: "guarded f st = (st1, tr1, r1)" by (cases "guarded f st")
  from guarded_catches [OF g] have g': "r1 = None" "invocations tr1 = [f]"
    "console st1 = console st @ raised tr1" by simp_all
  obtain st2 tr2 r2 where fe: "forEach guarded fs st1 = (st2, tr2, r2)"
    by (cases "forEach guarded fs st1")
  from Cons.IH [OF fe] have "r2 = None" "invocations tr2 = fs"
    "console st2 = console st1 @ raised tr2" by simp_all
  with g' show ?case using Cons.prems g fe
    by (auto simp: invocations_append raised_append)
qed

text \<open>
  Claim C9. In a flush, every function of the queue is called, in order, whatever the
  earlier ones did; each exception thrown by one of them is printed by
  \<open>console.error\<close>, and the flush itself ends without an exception.
\<close>

theorem flush_catches_every_exception:
  assumes "flush st = (st', tr, r)"
  shows "r = None \<and> invocations tr = effectQueue st \<and> console st' = console st @ raised tr"
  using forEach_guarded [of "effectQueue st" "st\<lparr>effectScheduled := False, effectQueue := []\<rparr>" st' tr r] assms
  by (simp add: flush_def Let_def)

theorem flush_catches_every_exception_witness:
  "snd (snd (flush (sig_write 0 1 rt3))) = None \<and>
   invocations (fst (snd (flush (sig_write 0 1 rt3)))) = [Runner 0, Runner 1, Runner 2] \<and>
   raised (fst (snd (flush (sig_write 0 1 rt3)))) = [Err ''Error'' ''boom''] \<and>
   console (fst (flush (sig_write 0 1 rt3))) = [Err ''Error'' ''boom'']"
proof -
  let ?st = "sig_write 0 1 rt3"
  have q: "effectQueue ?st = [Runner 0, Runner 1, Runner 2]" and c: "console ?st = []"
    by (simp_all add: rt3_def rt_eval)
  have r: "raised (fst (snd (flush ?st))) = [Err ''Error'' ''boom'']"
    by (simp add: rt3_def rt_eval)
  have "flush ?st = (fst (flush ?st), fst (snd (flush ?st)), snd (snd (flush ?st)))" by simp
  from flush_catches_every_exception [OF this] q c r show ?thesis by simp
qed

subsection \<open>Dependency tracking\<close>








subsection \<open>What a flush observes\<close>

lemma after_append: "after (xs @ ys) f = after ys (after xs f)"
  by (induction xs arbitrary: f) simp_all

lemma consistent_append:
  "consistent tg (xs @ ys) f = (consistent tg xs f \<and> consistent tg ys (after xs f))"
  by (induction xs arbitrary: f) simp_all

lemma vals_eqI: "(\<And>s. val (signals st' s) = val (signals st s)) \<Longrightarrow> vals st' = vals st"
  by (simp add: vals_def fun_eq_iff)

lemma vals_sig_write:
  "vals (sig_write s v st) =
     (if equals (signals st s) (val (signals st s)) v then vals st else (vals st)(s := v))"
  by (auto simp: vals_def sig_write_def Let_def schedule_all_frame fun_eq_iff)

lemma sig_read_vals:
  "sig_read s st = (v, st1) \<Longrightarrow> v = vals st s \<and> vals st1 = vals st \<and> wrappers st1 = wrappers st"
  by (auto simp: sig_read_def vals_def Let_def fun_eq_iff split: option.splits)

lemma exec_consistent:
  "exec p st = (st', tr, r) \<Longrightarrow>
     consistent tg tr (vals st) \<and> vals st' = after tr (vals st) \<and> wrappers st' = wrappers st"
proof (induction p arbitrary: st st' tr r)
  case Done
  then show ?case by simp
next
  case (Throw x)
  then show ?case by (auto simp: apply_action_def explained_def)
next
  case (Read s k)
  obtain v st1 where rd: "sig_read s st = (v, st1)" by (cases "sig_read s st")
  obtain st2 tr2 r2 where ex: "exec (k v) st1 = (st2, tr2, r2)" by (cases "exec (k v) st1")
  from Read.IH [OF _ ex] sig_read_vals [OF rd] show ?case
    using Read.prems rd ex by (auto simp: apply_action_def explained_def)
next
  case (Write s v p)
  obtain st2 tr2 r2 where ex: "exec p (sig_write s v st) = (st2, tr2, r2)"
    by (cases "exec p (sig_write s v st)")
  from Write.IH [OF ex] show ?case using Write.prems ex
    by (auto simp: vals_sig_write sig_write_frame apply_action_def explained_def split: if_splits)
qed

lemma cleanup_fold_val:
  "val (signals (foldl (\<lambda>st' s. st'\<lparr>signals := (signals st')
       (s := (signals st' s)\<lparr>subs := set_delete f (subs (signals st' s))\<rparr>)\<rparr>) st ds) s') = val (signals st s') \<and>
   wrappers (foldl (\<lambda>st' s. st'\<lparr>signals := (signals st')
       (s := (signals st' s)\<lparr>subs := set_delete f (subs (signals st' s))\<rparr>)\<rparr>) st ds) = wrappers st"
  by (induction ds arbitrary: st) simp_all

lemma cleanupEffect_vals:
  "vals (cleanupEffect e st) = vals st \<and> wrappers (cleanupEffect e st) = wrappers st"
proof
  show "vals (cleanupEffect e st) = vals st"
    by (rule vals_eqI) (simp add: cleanupEffect_def Let_def cleanup_fold_val)
  show "wrappers (cleanupEffect e st) = wrappers st"
    by (simp add: cleanupEffect_def Let_def cleanup_fold_val)
qed

lemma runner_consistent:
  assumes "runner e st = (st', tr, r)"
  shows "consistent tg tr (vals st) \<and> vals st' = after tr (vals st) \<and> wrappers st' = wrappers st"
proof (cases "active (effects st e)")
  case False
  with assms show ?thesis by (simp add: runner_def)
next
  case True
  let ?st3 = "cleanupEffect e st\<lparr>effectStack := effectStack (cleanupEffect e st) @ [e],
                                 currentEffect := Some e\<rparr>"
  obtain st4 tr4 r4 where ex: "exec (body (effects ?st3 e)) ?st3 = (st4, tr4, r4)"
    by (cases "exec (body (effects ?st3 e)) ?st3")
  have "vals ?st3 = vals (cleanupEffect e st)"
    by (rule vals_eqI) simp
  then have v3: "vals ?st3 = vals st" "wrappers ?st3 = wrappers st"
    using cleanupEffect_vals [of e st] by simp_all
  have st': "st' = st4\<lparr>effectStack := butlast (effectStack st4),
        currentEffect := (if butlast (effectStack st4) = [] then None
                          else Some (last (butlast (effectStack st4))))\<rparr>"
    using assms True ex by (auto simp: runner_def Let_def)
  have "vals st' = vals st4" unfolding st' by (rule vals_eqI) simp
  moreover have "wrappers st' = wrappers st4" unfolding st' by simp
  moreover have "tr = tr4" using assms True ex by (auto simp: runner_def Let_def)
  ultimately have res: "tr = tr4" "vals st' = vals st4" "wrappers st' = wrappers st4"
    by simp_all
  from exec_consistent [OF ex, of tg] show ?thesis unfolding res v3 by simp
qed

lemma run_sub_consistent:
  assumes "run_sub f st = (st', tr, r)"
  shows "consistent (\<lambda>w. target (wrappers st w)) tr (vals st) \<and> vals st' = after tr (vals st)
         \<and> wrappers st' = wrappers st"
proof (cases f)
  case (Runner e)
  with assms show ?thesis using runner_consistent by simp
next
  case (Wrapper w)
  with assms show ?thesis
    by (auto simp: call_wrapper_def Let_def vals_def apply_action_def explained_def split: option.splits)
qed

lemma guarded_consistent:
  assumes "guarded f st = (st', tr, r)"
  shows "consistent (\<lambda>w. target (wrappers st w)) tr (vals st) \<and> vals st' = after tr (vals st)
         \<and> wrappers st' = wrappers st"
proof -
  obtain st1 tr1 r1 where rs: "run_sub f st = (st1, tr1, r1)" by (cases "run_sub f st")
  have "vals (st1\<lparr>console := c\<rparr>) = vals st1" for c
    by (simp add: vals_def)
  with run_sub_consistent [OF rs] show ?thesis
    using assms rs by (cases r1) (auto simp: guarded_def apply_action_def explained_def)
qed

lemma forEach_guarded_consistent:
  "forEach guarded fs st = (st', tr, r) \<Longrightarrow>
     consistent (\<lambda>w. target (wrappers st w)) tr (vals st) \<and> vals st' = after tr (vals st)
     \<and> wrappers st' = wrappers st"
proof (induction fs arbitrary: st st' tr r)
  case Nil
  then show ?case by simp
next
  case (Cons f fs)
  obtain st1 tr1 r1 where g: "guarded f st = (st1, tr1, r1)" by (cases "guarded f st")
  obtain st2 tr2 r2 where fe: "forEach guarded fs st1 = (st2, tr2, r2)"
    by (cases "forEach guarded fs st1")
  note a = guarded_consistent [OF g]
  note b = Cons.IH [OF fe]
  show ?case
  proof (cases r1)
    case None
    then have "st' = st2" "tr = tr1 @ tr2" using Cons.prems g fe by auto
    then show ?thesis using a b by (simp add: consistent_append after_append)
  next
    case (Some x)
    then have "st' = st1" "tr = tr1" using Cons.prems g by auto
    then show ?thesis using a by simp
  qed
qed

lemma flush_consistent:
  assumes "flush st = (st', tr, r)"
  shows "consistent (\<lambda>w. target (wrappers st w)) tr (vals st) \<and> vals st' = after tr (vals st)"
proof -
  have "vals (st\<lparr>effectScheduled := False, effectQueue := []\<rparr>) = vals st"
    by (simp add: vals_def)
  then show ?thesis
    using forEach_guarded_consistent [of "effectQueue st" "st\<lparr>effectScheduled := False, effectQueue := []\<rparr>" st' tr r] assms
    by (simp add: flush_def Let_def)
qed

subsection \<open>A turn of writes and the flush after it\<close>

lemma quiescent_sched_ok: "quiescent st \<Longrightarrow> sched_ok st"
  by (simp add: quiescent_def sched_ok_def)

lemma distinct_set_add: "distinct xs \<Longrightarrow> distinct (set_add x xs)"
  by (simp add: set_add_def)

lemma scheduleEffect_sched:
  "sched_ok st \<Longrightarrow> sched_ok (scheduleEffect f st)"
  "set (effectQueue (scheduleEffect f st)) = insert f (set (effectQueue st))"
  "console (scheduleEffect f st) = console st"
  by (auto simp: scheduleEffect_def sched_ok_def Let_def set_add_def)

lemma schedule_all_sched:
  "sched_ok st \<Longrightarrow> sched_ok (foldl (\<lambda>st' f. scheduleEffect f st') st fs)"
  by (induction fs arbitrary: st) (simp_all add: scheduleEffect_sched)

lemma schedule_all_queue:
  "set (effectQueue (foldl (\<lambda>st' f. scheduleEffect f st') st fs)) = set (effectQueue st) \<union> set fs"
  by (induction fs arbitrary: st) (simp_all add: scheduleEffect_sched)

lemma sig_write_sched: "sched_ok st \<Longrightarrow> sched_ok (sig_write s v st)"
proof -
  assume ok: "sched_ok st"
  have "sched_ok (st\<lparr>signals := g\<rparr>)" for g
    using ok by (simp add: sched_ok_def)
  then show ?thesis
    using ok by (simp add: sig_write_def Let_def schedule_all_sched)
qed

lemma sig_write_queue:
  "set (effectQueue (sig_write s v st)) =
     set (effectQueue st) \<union>
     (if equals (signals st s) (val (signals st s)) v then {} else set (subs (signals st s)))"
  by (simp add: sig_write_def Let_def schedule_all_queue)

lemma sig_write_val:
  "val (signals (sig_write s v st) s') =
     (if s' = s \<and> \<not> equals (signals st s) (val (signals st s)) v then v
      else val (signals st s'))"
  by (simp add: sig_write_def Let_def schedule_all_frame)

lemma turn_snoc: "turn (ws @ [(s, v)]) st = sig_write s v (turn ws st)"
  by (simp add: turn_def)

lemma turn_Cons: "turn ((s, v) # ws) st = turn ws (sig_write s v st)"
  by (simp add: turn_def)

lemma turn_frame:
  "effects (turn ws st) = effects st \<and> wrappers (turn ws st) = wrappers st \<and>
   console (turn ws st) = console st \<and>
   currentEffect (turn ws st) = currentEffect st \<and>
   (\<forall>s. subs (signals (turn ws st) s) = subs (signals st s)) \<and>
   (\<forall>s. equals (signals (turn ws st) s) = equals (signals st s))"
proof (induction ws rule: rev_induct)
  case Nil
  show ?case by (simp add: turn_def)
next
  case (snoc w ws)
  obtain s v where w: "w = (s, v)" by (cases w)
  show ?case unfolding w turn_snoc using snoc.IH
    by (simp add: sig_write_frame console_sig_write)
qed

lemma turn_sched: "sched_ok st \<Longrightarrow> sched_ok (turn ws st)"
proof (induction ws rule: rev_induct)
  case Nil
  then show ?case by (simp add: turn_def)
next
  case (snoc w ws)
  obtain s v where w: "w = (s, v)" by (cases w)
  show ?case unfolding w turn_snoc using snoc by (simp add: sig_write_sched)
qed

lemma turn_changed_scheduled:
  "val (signals (turn ws st) s) \<noteq> val (signals st s)
     \<Longrightarrow> set (subs (signals st s)) \<subseteq> set (effectQueue (turn ws st))"
proof (induction ws rule: rev_induct)
  case Nil
  then show ?case by (simp add: turn_def)
next
  case (snoc w ws)
  obtain s' v where w: "w = (s', v)" by (cases w)
  let ?st = "turn ws st"
  have subs_eq: "subs (signals ?st s) = subs (signals st s)" using turn_frame by blast
  show ?case
  proof (cases "s' = s \<and> \<not> equals (signals ?st s') (val (signals ?st s')) v")
    case True
    then show ?thesis unfolding w turn_snoc using subs_eq by (auto simp: sig_write_queue)
  next
    case False
    then have "val (signals (sig_write s' v ?st) s) = val (signals ?st s)"
      by (auto simp: sig_write_val)
    then have "val (signals ?st s) \<noteq> val (signals st s)"
      using snoc.prems unfolding w turn_snoc by simp
    from snoc.IH [OF this] show ?thesis unfolding w turn_snoc by (auto simp: sig_write_queue)
  qed
qed

lemma microtask_runs_queue:
  assumes "sched_ok st" and "microtask st = (st', tr, r)"
  shows "invocations tr = effectQueue st \<and>
         consistent (\<lambda>w. target (wrappers st w)) tr (vals st)"
proof (cases "microtasks st = 0")
  case True
  with assms show ?thesis by (auto simp: microtask_def sched_ok_def split: if_splits)
next
  case False
  let ?st = "st\<lparr>microtasks := microtasks st - 1\<rparr>"
  have fl: "flush ?st = (st', tr, r)" using assms False by (simp add: microtask_def)
  have "vals ?st = vals st" by (simp add: vals_def)
  with flush_consistent [OF fl] forEach_guarded [of "effectQueue st" "?st\<lparr>effectScheduled := False, effectQueue := []\<rparr>" st' tr r] fl
  show ?thesis by (simp add: flush_def Let_def)
qed

lemma sched_ok_cong:
  "effectQueue a = effectQueue b \<Longrightarrow> effectScheduled a = effectScheduled b \<Longrightarrow>
   microtasks a = microtasks b \<Longrightarrow> sched_ok a = sched_ok b"
  by (simp add: sched_ok_def)

lemma sig_read_sched: "sig_read s st = (v, st1) \<Longrightarrow> sched_ok st1 = sched_ok st"
  by (rule sched_ok_cong) (auto simp: sig_read_def Let_def split: option.splits)

lemma exec_sched: "sched_ok st \<Longrightarrow> exec p st = (st', tr, r) \<Longrightarrow> sched_ok st'"
proof (induction p arbitrary: st st' tr r)
  case Done
  then show ?case by simp
next
  case (Throw x)
  then show ?case by simp
next
  case (Read s k)
  obtain v st1 where rd: "sig_read s st = (v, st1)" by (cases "sig_read s st")
  obtain st2 tr2 r2 where ex: "exec (k v) st1 = (st2, tr2, r2)" by (cases "exec (k v) st1")
  have "sched_ok st1" using Read.prems(1) sig_read_sched [OF rd] by simp
  from Read.IH [OF _ this ex] show ?case using Read.prems(2) rd ex by auto
next
  case (Write s v p)
  obtain st2 tr2 r2 where ex: "exec p (sig_write s v st) = (st2, tr2, r2)"
    by (cases "exec p (sig_write s v st)")
  from Write.IH [OF sig_write_sched [OF Write.prems(1)] ex] show ?case
    using Write.prems(2) ex by (auto split: if_splits)
qed

lemma cleanup_fold_sched:
  "effectQueue (foldl (\<lambda>st' s. st'\<lparr>signals := (signals st')
       (s := (signals st' s)\<lparr>subs := set_delete f (subs (signals st' s))\<rparr>)\<rparr>) st ds) = effectQueue st \<and>
   effectScheduled (foldl (\<lambda>st' s. st'\<lparr>signals := (signals st')
       (s := (signals st' s)\<lparr>subs := set_delete f (subs (signals st' s))\<rparr>)\<rparr>) st ds) = effectScheduled st \<and>
   microtasks (foldl (\<lambda>st' s. st'\<lparr>signals := (signals st')
       (s := (signals st' s)\<lparr>subs := set_delete f (subs (signals st' s))\<rparr>)\<rparr>) st ds) = microtasks st"
  by (induction ds arbitrary: st) simp_all

lemma cleanupEffect_sched: "sched_ok (cleanupEffect e st) = sched_ok st"
  by (rule sched_ok_cong) (simp_all add: cleanupEffect_def Let_def cleanup_fold_sched)

lemma runner_sched:
  assumes "sched_ok st" and "runner e st = (st', tr, r)"
  shows "sched_ok st'"
proof (cases "active (effects st e)")
  case False
  with assms show ?thesis by (simp add: runner_def)
next
  case True
  let ?st3 = "cleanupEffect e st\<lparr>effectStack := effectStack (cleanupEffect e st) @ [e],
                                 currentEffect := Some e\<rparr>"
  obtain st4 tr4 r4 where ex: "exec (body (effects ?st3 e)) ?st3 = (st4, tr4, r4)"
    by (cases "exec (body (effects ?st3 e)) ?st3")
  have "sched_ok ?st3 = sched_ok (cleanupEffect e st)"
    by (rule sched_ok_cong) simp_all
  then have "sched_ok ?st3" using assms(1) by (simp add: cleanupEffect_sched)
  from exec_sched [OF this ex] have ok4: "sched_ok st4" .
  have st': "st' = st4\<lparr>effectStack := butlast (effectStack st4),
        currentEffect := (if butlast (effectStack st4) = [] then None
                          else Some (last (butlast (effectStack st4))))\<rparr>"
    using assms(2) True ex by (auto simp: runner_def Let_def)
  have "sched_ok st' = sched_ok st4" unfolding st' by (rule sched_ok_cong) simp_all
  with ok4 show ?thesis by simp
qed

lemma guarded_sched:
  assumes "sched_ok st" and "guarded f st = (st', tr, r)"
  shows "sched_ok st'"
proof -
  obtain st1 tr1 r1 where rs: "run_sub f st = (st1, tr1, r1)" by (cases "run_sub f st")
  have ok1: "sched_ok st1"
  proof (cases f)
    case (Runner e)
    with rs assms(1) show ?thesis using runner_sched by simp
  next
    case (Wrapper w)
    with rs assms(1) show ?thesis by (auto simp: call_wrapper_def Let_def split: option.splits)
  qed
  have "sched_ok (st1\<lparr>console := c\<rparr>) = sched_ok st1" for c
    by (rule sched_ok_cong) simp_all
  with ok1 show ?thesis using assms(2) rs by (cases r1) (auto simp: guarded_def)
qed

lemma forEach_guarded_sched:
  "sched_ok st \<Longrightarrow> forEach guarded fs st = (st', tr, r) \<Longrightarrow> sched_ok st'"
proof (induction fs arbitrary: st st' tr r)
  case Nil
  then show ?case by simp
next
  case (Cons f fs)
  obtain st1 tr1 r1 where g: "guarded f st = (st1, tr1, r1)" by (cases "guarded f st")
  obtain st2 tr2 r2 where fe: "forEach guarded fs st1 = (st2, tr2, r2)"
    by (cases "forEach guarded fs st1")
  have ok1: "sched_ok st1" using guarded_sched [OF Cons.prems(1) g] .
  show ?case
  proof (cases r1)
    case None
    then have "st' = st2" using Cons.prems(2) g fe by auto
    then show ?thesis using Cons.IH [OF ok1 fe] by simp
  next
    case (Some x)
    then have "st' = st1" using Cons.prems(2) g by auto
    then show ?thesis using ok1 by simp
  qed
qed

lemma microtask_sched:
  assumes "sched_ok st" and "microtask st = (st', tr, r)"
  shows "sched_ok st'"
proof (cases "microtasks st = 0")
  case True
  with assms show ?thesis by (simp add: microtask_def)
next
  case False
  let ?st2 = "st\<lparr>microtasks := microtasks st - 1, effectScheduled := False, effectQueue := []\<rparr>"
  have fe: "forEach guarded (effectQueue st) ?st2 = (st', tr, r)"
    using assms(2) False by (simp add: microtask_def flush_def Let_def)
  have "sched_ok ?st2" using assms(1) False by (auto simp: sched_ok_def split: if_splits)
  from forEach_guarded_sched [OF this fe] show ?thesis .
qed

lemma init_sched: "sched_ok (init d)"
  by (simp add: sched_ok_def init_def)

lemma signal_sched: "sched_ok (snd (signal initial eq st)) = sched_ok st"
  by (rule sched_ok_cong) (simp_all add: signal_def Let_def)

lemma subscribe_sched: "sched_ok (snd (subscribe s cb st)) = sched_ok st"
  by (rule sched_ok_cong) (simp_all add: subscribe_def Let_def)

lemma unsubscribe_sched: "sched_ok (unsubscribe w st) = sched_ok st"
  by (rule sched_ok_cong) (simp_all add: unsubscribe_def Let_def)

lemma dispose_sched: "sched_ok (dispose e st) = sched_ok st"
proof -
  have "sched_ok (st\<lparr>effects := g\<rparr>) = sched_ok st" for g
    by (rule sched_ok_cong) simp_all
  then show ?thesis by (simp add: dispose_def cleanupEffect_sched)
qed

lemma effect_sched:
  assumes "sched_ok st" and "effect fn st = (e, st', tr, r)"
  shows "sched_ok st'"
proof -
  let ?st1 = "st\<lparr>effects := (effects st)(next_effect st := \<lparr>active = True, deps = [], body = fn\<rparr>),
                  next_effect := next_effect st + 1\<rparr>"
  have "sched_ok ?st1 = sched_ok st" by (rule sched_ok_cong) simp_all
  moreover have "runner (next_effect st) ?st1 = (st', tr, r)"
    using assms(2) by (auto simp: effect_def Let_def)
  ultimately show ?thesis using assms(1) runner_sched by blast
qed

lemma consistent_before_write:
  "consistent tg tr f \<Longrightarrow> Saw s v \<in> set (takeWhile (\<lambda>a. \<not> is_Wrote a) tr) \<Longrightarrow> f s = v"
proof (induction tr arbitrary: f)
  case Nil
  then show ?case by simp
next
  case (Cons a tr)
  show ?case
  proof (cases "is_Wrote a")
    case True
    with Cons.prems(2) show ?thesis by simp
  next
    case False
    then have same: "apply_action a f = f" by (cases a) (simp_all add: apply_action_def)
    from Cons.prems(2) False have "Saw s v = a \<or> Saw s v \<in> set (takeWhile (\<lambda>a. \<not> is_Wrote a) tr)"
      by auto
    then show ?thesis
    proof
      assume "Saw s v = a"
      with Cons.prems(1) show ?thesis by (auto simp: explained_def)
    next
      assume "Saw s v \<in> set (takeWhile (\<lambda>a. \<not> is_Wrote a) tr)"
      with Cons.IH [of f] Cons.prems(1) same show ?thesis by simp
    qed
  qed
qed

text \<open>
  Claim C5 (as the code has it). A synchronous turn writes any signals any number of
  times, starting in any state in which the scheduler's bookkeeping is in order (as it
  is when the module is loaded and after every operation above). The writes run no
  effect (the effects and the console are as before); at most one flush is waiting at
  the end of the turn; the next microtask calls each queued function exactly once (the
  calls are the queue, which has no duplicates), among them every subscriber of every
  signal whose value changed; every value seen during that flush is the value at the
  end of the turn or one written since by the flush itself; and up to the first write
  of the flush every value seen is the value at the end of the turn.
\<close>

theorem synchronous_writes_flush_once:
  assumes "sched_ok st" and "microtask (turn ws st) = (st', tr, r)"
  shows "microtasks (turn ws st) \<le> 1 \<and>
         effects (turn ws st) = effects st \<and> console (turn ws st) = console st \<and>
         invocations tr = effectQueue (turn ws st) \<and> distinct (invocations tr) \<and>
         (\<forall>s. val (signals (turn ws st) s) \<noteq> val (signals st s)
                \<longrightarrow> set (subs (signals st s)) \<subseteq> set (invocations tr)) \<and>
         consistent (\<lambda>w. target (wrappers st w)) tr (vals (turn ws st)) \<and>
         (\<forall>s v. Saw s v \<in> set (takeWhile (\<lambda>a. \<not> is_Wrote a) tr)
                \<longrightarrow> v = val (signals (turn ws st) s))"
proof -
  have ok: "sched_ok (turn ws st)"
    using assms(1) by (simp add: turn_sched)
  note m = microtask_runs_queue [OF ok assms(2)]
  have w: "wrappers (turn ws st) = wrappers st" using turn_frame by blast
  have c: "consistent (\<lambda>w. target (wrappers st w)) tr (vals (turn ws st))"
    using m w by simp
  have "microtasks (turn ws st) \<le> 1" "distinct (effectQueue (turn ws st))"
    using ok by (simp_all add: sched_ok_def)
  moreover have "effects (turn ws st) = effects st" "console (turn ws st) = console st"
    using turn_frame by blast+
  moreover have "\<forall>s v. Saw s v \<in> set (takeWhile (\<lambda>a. \<not> is_Wrote a) tr)
                \<longrightarrow> v = val (signals (turn ws st) s)"
    using consistent_before_write [OF c] by (auto simp: vals_def)
  ultimately show ?thesis using m c turn_changed_scheduled [of ws st] by simp
qed

theorem synchronous_writes_flush_once_witness:
  "quiescent rt_two \<and>
   microtasks (turn [(0, 1), (1, 2), (0, 3)] rt_two) = 1 \<and>
   invocations (fst (snd (microtask (turn [(0, 1), (1, 2), (0, 3)] rt_two)))) = [Runner 0] \<and>
   fst (snd (microtask (turn [(0, 1), (1, 2), (0, 3)] rt_two)))
     = [Invoked (Runner 0), Saw 0 3, Saw 1 2] \<and>
   consistent (\<lambda>w. target (wrappers rt_two w))
     (fst (snd (microtask (turn [(0, 1), (1, 2), (0, 3)] rt_two))))
     (vals (turn [(0, 1), (1, 2), (0, 3)] rt_two))"
proof -
  let ?T = "turn [(0, 1), (1, 2), (0, 3)] rt_two"
  let ?M = "microtask ?T"
  have q: "quiescent rt_two" by (simp add: rt_two_def rt_eval)
  have m1: "microtasks ?T = 1" by (simp add: rt_two_def rt_eval)
  have tr: "fst (snd ?M) = [Invoked (Runner 0), Saw 0 3, Saw 1 2]"
    by (simp add: rt_two_def rt_eval)
  have "?M = (fst ?M, fst (snd ?M), snd (snd ?M))" by simp
  from synchronous_writes_flush_once [OF quiescent_sched_ok [OF q] this] q m1 tr
  show ?thesis by simp
qed

text \<open>
  The claim as written fails when an effect of the flush writes a signal that a later
  effect of the same flush reads. In \<open>rt_chain\<close> the turn writes 5 to signal 0 and 10
  to signal 1; in the flush the first effect writes 6 to signal 1, and the re-run of
  the second effect then sees 6 there, not the 10 the turn left.
\<close>

theorem flush_write_seen_by_later_effect:
  "quiescent rt_chain \<and>
   val (signals (turn [(0, 5), (1, 10)] rt_chain) 0) = 5 \<and>
   val (signals (turn [(0, 5), (1, 10)] rt_chain) 1) = 10 \<and>
   fst (snd (microtask (turn [(0, 5), (1, 10)] rt_chain)))
     = [Invoked (Runner 0), Saw 0 5, Wrote 1 6, Invoked (Runner 1), Saw 0 5, Saw 1 6]"
  by code_simp

subsection \<open>Callbacks registered with \<open>subscribe\<close>\<close>

lemma got_append: "got w (xs @ ys) = got w xs @ got w ys"
proof (induction xs)
  case Nil
  show ?case by simp
next
  case (Cons a xs)
  then show ?case by (cases a) simp_all
qed

lemma count_list_distinct:
  "distinct xs \<Longrightarrow> count_list xs x = (if x \<in> set xs then 1 else 0)"
  by (induction xs) auto

lemma forEach_wrappers:
  "list_all is_Wrapper fs \<Longrightarrow> forEach guarded fs st = (st', tr, r) \<Longrightarrow>
     signals st' = signals st \<and> wrappers st' = wrappers st \<and>
     effectQueue st' = effectQueue st \<and> effectScheduled st' = effectScheduled st \<and>
     microtasks st' = microtasks st \<and>
     got w tr = replicate (count_list fs (Wrapper w)) (val (signals st (target (wrappers st w))))"
proof (induction fs arbitrary: st st' tr r)
  case Nil
  then show ?case by simp
next
  case (Cons f fs)
  from Cons.prems(1) obtain w' where f: "f = Wrapper w'" by (cases f) simp_all
  let ?v = "val (signals st (target (wrappers st w')))"
  obtain st1 tr1 where g: "guarded f st = (st1, tr1, None)"
    using guarded_catches [of f st] by (cases "guarded f st") auto
  have g1: "signals st1 = signals st" "wrappers st1 = wrappers st"
    "effectQueue st1 = effectQueue st" "effectScheduled st1 = effectScheduled st"
    "microtasks st1 = microtasks st"
    "got w tr1 = (if w' = w then [?v] else [])"
    using g unfolding f
    by (auto simp: guarded_def call_wrapper_def Let_def split: option.splits)
  obtain st2 tr2 r2 where fe: "forEach guarded fs st1 = (st2, tr2, r2)"
    by (cases "forEach guarded fs st1")
  from Cons.prems(1) have "list_all is_Wrapper fs" by simp
  note ih = Cons.IH [OF this fe]
  have res: "st' = st2" "tr = tr1 @ tr2" using Cons.prems(2) g fe by auto
  show ?case unfolding res using ih g1 f by (auto simp: got_append)
qed

lemma flush_wrappers:
  assumes "list_all is_Wrapper (effectQueue st)" and "distinct (effectQueue st)"
      and "flush st = (st', tr, r)"
  shows "signals st' = signals st \<and> wrappers st' = wrappers st \<and>
         effectQueue st' = [] \<and> \<not> effectScheduled st' \<and> microtasks st' = microtasks st \<and>
         got w tr = (if Wrapper w \<in> set (effectQueue st)
                     then [val (signals st (target (wrappers st w)))] else [])"
proof -
  let ?st2 = "st\<lparr>effectScheduled := False, effectQueue := []\<rparr>"
  have fe: "forEach guarded (effectQueue st) ?st2 = (st', tr, r)"
    using assms(3) by (simp add: flush_def Let_def)
  have c: "count_list (effectQueue st) (Wrapper w) = (if Wrapper w \<in> set (effectQueue st) then 1 else 0)"
    using assms(2) by (rule count_list_distinct)
  from forEach_wrappers [OF assms(1) fe, of w] c show ?thesis by simp
qed

lemma turn_one_signal:
  "val (signals (turn (map (Pair s) vs) st) s)
     = last (val (signals st s) # committed (equals (signals st s)) (val (signals st s)) vs) \<and>
   set (effectQueue (turn (map (Pair s) vs) st))
     = set (effectQueue st) \<union>
       (if committed (equals (signals st s)) (val (signals st s)) vs = [] then {}
        else set (subs (signals st s)))"
proof (induction vs arbitrary: st)
  case Nil
  show ?case by (simp add: turn_def)
next
  case (Cons v vs)
  let ?st1 = "sig_write s v st"
  have e: "equals (signals ?st1 s) = equals (signals st s)"
    and b: "subs (signals ?st1 s) = subs (signals st s)"
    by (simp_all add: sig_write_frame)
  show ?case
  proof (cases "equals (signals st s) (val (signals st s)) v")
    case True
    then have "?st1 = st" by (simp add: sig_write_def Let_def)
    with Cons.IH [of st] True show ?thesis by (simp add: turn_Cons)
  next
    case False
    then have v1: "val (signals ?st1 s) = v" by (simp add: sig_write_val)
    have q1: "set (effectQueue ?st1) = set (effectQueue st) \<union> set (subs (signals st s))"
      using False by (simp add: sig_write_queue)
    from Cons.IH [of ?st1] show ?thesis
      using False by (auto simp: turn_Cons e b v1 q1)
  qed
qed

lemma single_turn_notifies_once:
  assumes q: "quiescent st"
      and ws: "list_all is_Wrapper (subs (signals st s))"
      and w: "Wrapper w \<in> set (subs (signals st s))"
      and tg: "target (wrappers st w) = s"
      and m: "microtask (turn (map (Pair s) vs) st) = (st', tr, r)"
  shows "got w tr = (case committed (equals (signals st s)) (val (signals st s)) vs of
                       [] \<Rightarrow> [] | c # cs \<Rightarrow> [last (c # cs)]) \<and>
         quiescent st' \<and> signals st' = signals (turn (map (Pair s) vs) st) \<and>
         wrappers st' = wrappers st"
proof -
  let ?T = "turn (map (Pair s) vs) st"
  let ?cs = "committed (equals (signals st s)) (val (signals st s)) vs"
  have ok: "sched_ok ?T" using q by (simp add: quiescent_sched_ok turn_sched)
  have wr: "wrappers ?T = wrappers st" using turn_frame by blast
  have one: "val (signals ?T s) = last (val (signals st s) # ?cs)"
    "set (effectQueue ?T) = (if ?cs = [] then {} else set (subs (signals st s)))"
    using turn_one_signal [of s vs st] q by (simp_all add: quiescent_def)
  have allw: "list_all is_Wrapper (effectQueue ?T)"
    using ws one(2) by (auto simp: list_all_iff split: if_splits)
  show ?thesis
  proof (cases "microtasks ?T = 0")
    case True
    then have "effectQueue ?T = []" "\<not> effectScheduled ?T"
      using ok by (auto simp: sched_ok_def split: if_splits)
    moreover from this one(2) w have "?cs = []" by (auto split: if_splits)
    moreover have "st' = ?T" "tr = []" using m True by (simp_all add: microtask_def)
    ultimately show ?thesis using True wr by (simp add: quiescent_def)
  next
    case False
    then have m1: "microtasks ?T = 1" using ok by (auto simp: sched_ok_def split: if_splits)
    let ?T' = "?T\<lparr>microtasks := microtasks ?T - 1\<rparr>"
    have fl: "flush ?T' = (st', tr, r)" using m False by (simp add: microtask_def)
    have "list_all is_Wrapper (effectQueue ?T')" "distinct (effectQueue ?T')"
      using allw ok by (simp_all add: sched_ok_def)
    from flush_wrappers [OF this fl, of w]
    have f: "signals st' = signals ?T" "wrappers st' = wrappers ?T" "effectQueue st' = []"
      "\<not> effectScheduled st'" "microtasks st' = 0"
      "got w tr = (if Wrapper w \<in> set (effectQueue ?T) then [val (signals ?T s)] else [])"
      using m1 wr tg by simp_all
    show ?thesis
    proof (cases ?cs)
      case Nil
      then show ?thesis using f one wr by (simp add: quiescent_def)
    next
      case (Cons c cs)
      then show ?thesis using f one w wr by (simp add: quiescent_def)
    qed
  qed
qed

lemma write_each_turn_notifies:
  assumes "quiescent st"
      and "list_all is_Wrapper (subs (signals st s))"
      and "Wrapper w \<in> set (subs (signals st s))"
      and "target (wrappers st w) = s"
      and "write_each_turn s vs st = (st', tr)"
  shows "got w tr = committed (equals (signals st s)) (val (signals st s)) vs"
  using assms
proof (induction vs arbitrary: st st' tr)
  case Nil
  then show ?case by simp
next
  case (Cons v vs)
  obtain st1 tr1 r1 where m: "microtask (sig_write s v st) = (st1, tr1, r1)"
    by (cases "microtask (sig_write s v st)")
  obtain st2 tr2 where rest: "write_each_turn s vs st1 = (st2, tr2)"
    by (cases "write_each_turn s vs st1")
  have t1: "turn (map (Pair s) [v]) st = sig_write s v st" by (simp add: turn_def)
  from single_turn_notifies_once [OF Cons.prems(1-4), of "[v]" st1 tr1 r1] m
  have a: "got w tr1 = (if equals (signals st s) (val (signals st s)) v then [] else [v])"
    "quiescent st1" "signals st1 = signals (sig_write s v st)" "wrappers st1 = wrappers st"
    unfolding t1 by simp_all
  have s1: "subs (signals st1 s) = subs (signals st s)"
    "equals (signals st1 s) = equals (signals st s)"
    "val (signals st1 s) = (if equals (signals st s) (val (signals st s)) v
                            then val (signals st s) else v)"
    unfolding a(3) by (simp_all add: sig_write_frame sig_write_val)
  have "got w tr2 = committed (equals (signals st1 s)) (val (signals st1 s)) vs"
    using Cons.IH [OF a(2) _ _ _ rest] Cons.prems(2-4) s1 a(4) by simp
  moreover have "tr = tr1 @ tr2" using Cons.prems(5) m rest by simp
  ultimately show ?case using a(1) s1 by (simp add: got_append)
qed

text \<open>
  Claim C2 (as the code has it). A signal \<open>s\<close> has only \<open>subscribe\<close> callbacks as
  subscribers, \<open>w\<close> among them, and nothing is waiting. A write equal to the current
  value under the signal's equality function changes nothing at all. After a turn that
  writes the values \<open>vs\<close> to \<open>s\<close>, the next microtask calls the callback once, with
  the last committed value, if some write was committed, and not at all otherwise. When
  the microtask runs after each single write, the callback receives exactly the
  committed values, one call for each, in order.
\<close>

theorem subscribers_notified_once_per_flush:
  assumes "quiescent st"
      and "list_all is_Wrapper (subs (signals st s))"
      and "Wrapper w \<in> set (subs (signals st s))"
      and "target (wrappers st w) = s"
  shows "(equals (signals st s) (val (signals st s)) v \<longrightarrow> sig_write s v st = st) \<and>
         got w (fst (snd (microtask (turn (map (Pair s) vs) st))))
           = (case committed (equals (signals st s)) (val (signals st s)) vs of
                [] \<Rightarrow> [] | c # cs \<Rightarrow> [last (c # cs)]) \<and>
         got w (snd (write_each_turn s vs st))
           = committed (equals (signals st s)) (val (signals st s)) vs"
proof -
  obtain st1 tr1 r1 where m: "microtask (turn (map (Pair s) vs) st) = (st1, tr1, r1)"
    by (cases "microtask (turn (map (Pair s) vs) st)")
  obtain st2 tr2 where e: "write_each_turn s vs st = (st2, tr2)"
    by (cases "write_each_turn s vs st")
  have "equals (signals st s) (val (signals st s)) v \<longrightarrow> sig_write s v st = st"
    by (simp add: sig_write_def Let_def)
  moreover from single_turn_notifies_once [OF assms m]
  have "got w tr1 = (case committed (equals (signals st s)) (val (signals st s)) vs of
                [] \<Rightarrow> [] | c # cs \<Rightarrow> [last (c # cs)])" by simp
  moreover from write_each_turn_notifies [OF assms e]
  have "got w tr2 = committed (equals (signals st s)) (val (signals st s)) vs" .
  ultimately show ?thesis using m e by simp
qed

theorem subscribers_notified_once_per_flush_witness:
  "quiescent rt_sub \<and>
   got 0 (fst (snd (microtask (turn (map (Pair 0) [1, 1, 2, 2, 3]) rt_sub)))) = [3] \<and>
   got 0 (snd (write_each_turn 0 [1, 1, 2, 2, 3] rt_sub)) = [1, 2, 3]"
proof -
  have q: "quiescent rt_sub" and a: "list_all is_Wrapper (subs (signals rt_sub 0))"
    and w: "Wrapper 0 \<in> set (subs (signals rt_sub 0))" and t: "target (wrappers rt_sub 0) = 0"
    and e: "equals (signals rt_sub 0) = (=)" and v: "val (signals rt_sub 0) = 0"
    by (simp_all add: rt_sub_def rt_eval)
  from subscribers_notified_once_per_flush [OF q a w t, of 0 "[1, 1, 2, 2, 3]"] q
  show ?thesis by (simp add: e v)
qed

text \<open>
  The claim as written fails when two writes fall in the same turn: both are committed
  (neither equals the value before it), and the flush that follows calls the callback
  once, with the second value; nothing is left waiting that could call it again.
\<close>

theorem two_writes_one_notification:
  "committed (equals (signals rt_sub 0)) (val (signals rt_sub 0)) [1, 2] = [1, 2] \<and>
   fst (snd (microtask (turn [(0, 1), (0, 2)] rt_sub))) = [Invoked (Wrapper 0), Got 0 2] \<and>
   got 0 (fst (snd (microtask (turn [(0, 1), (0, 2)] rt_sub)))) = [2] \<and>
   quiescent (fst (microtask (turn [(0, 1), (0, 2)] rt_sub)))"
  by (simp add: rt_sub_def rt_eval)

section \<open>Properties of the Query state machine\<close>

lemmas Query_eval = env0_def q_fresh_def new_QueryClient_def new_Query_def no_options_def
  run_start_def run_resolve_def try_body_def catch_body_def call_opt_def call_onSettled_def
  get_select_def get_staleTime_def isStale_def Let_def steps_def fetch_count_def

lemma run_resolve_superseded:
  "currentId \<noteq> requestId q \<Longrightarrow> run_resolve env currentId out t q = (Resolved (data q), q)"
  by (cases out) (simp_all add: run_resolve_def try_body_def catch_body_def)

lemma run_start_Pending:
  "run_start env force t q = (Pending i, q') \<Longrightarrow> i = requestId q + 1 \<and> requestId q' = i"
  by (auto simp: run_start_def Let_def split: if_splits option.splits)

lemma requestId_catch_body: "requestId (snd (catch_body i e q)) = requestId q"
  by (auto simp: catch_body_def call_opt_def call_onSettled_def Let_def
           split: option.splits)

lemma requestId_try_body: "requestId (snd (try_body env i raw t q)) = requestId q"
  by (auto simp: try_body_def call_opt_def call_onSettled_def Let_def
           split: option.splits sum.splits)

lemma requestId_run_resolve: "requestId (snd (run_resolve env i out t q)) = requestId q"
proof (cases out)
  case (Failed e)
  then show ?thesis by (simp add: run_resolve_def requestId_catch_body)
next
  case (Fulfilled raw)
  obtain r q1 where tb: "try_body env i raw t q = (r, q1)"
    by (cases "try_body env i raw t q")
  then have "requestId q1 = requestId q"
    using requestId_try_body [of env i raw t q] by simp
  then show ?thesis
    using Fulfilled tb by (cases r) (simp_all add: run_resolve_def requestId_catch_body)
qed

lemma requestId_run_start: "requestId q \<le> requestId (snd (run_start env force t q))"
  by (simp add: run_start_def Let_def split: option.splits)

lemma requestId_step: "requestId q \<le> requestId (step env q ev)"
  by (cases ev) (simp_all add: requestId_run_start requestId_run_resolve)

lemma requestId_steps: "requestId q \<le> requestId (steps env evs q)"
  unfolding steps_def
proof (induction evs arbitrary: q)
  case Nil
  show ?case by simp
next
  case (Cons ev evs)
  have "requestId q \<le> requestId (step env q ev)" by (rule requestId_step)
  also have "\<dots> \<le> requestId (foldl (step env) (step env q ev) evs)" by (rule Cons.IH)
  finally show ?case by simp
qed

text \<open>
  Claim C1. Two attempts overlap: \<open>_run\<close> starts attempt \<open>id1\<close>, and before its fetch
  settles \<open>_run\<close> starts attempt \<open>id2\<close>. Then, after any further history \<open>evs\<close> of
  the Query (the second fetch settling, later attempts, anything), the settling of the
  first fetch, fulfilled or failed, leaves every field of the Query as it was (so data,
  error and status too, and no callback is called) and the promise of the first
  \<open>_run\<close> resolves, with the current data: it is not rejected. In general a settling
  that changes the Query at all carries the current request id.
\<close>

theorem superseded_response_is_discarded:
  assumes "run_start env f1 t1 q0 = (Pending id1, q1)"
      and "run_start env f2 t2 q1 = (Pending id2, q2)"
  shows "id1 < id2 \<and>
         run_resolve env id1 out t (steps env evs q2)
           = (Resolved (data (steps env evs q2)), steps env evs q2) \<and>
         (\<forall>i out' t' q. snd (run_resolve env i out' t' q) \<noteq> q \<longrightarrow> i = requestId q)"
proof -
  from assms(1) have "requestId q1 = id1" using run_start_Pending by blast
  moreover from assms(2) have "id2 = requestId q1 + 1" and "requestId q2 = id2"
    using run_start_Pending by blast+
  ultimately have lt: "id1 < id2" and "id1 < requestId q2" by simp_all
  then have "id1 < requestId (steps env evs q2)"
    using requestId_steps [of q2 env evs] by simp
  then have "run_resolve env id1 out t (steps env evs q2)
           = (Resolved (data (steps env evs q2)), steps env evs q2)"
    by (intro run_resolve_superseded) simp
  moreover have "\<forall>i out' t' q. snd (run_resolve env i out' t' q) \<noteq> q \<longrightarrow> i = requestId q"
    using run_resolve_superseded by (metis snd_conv)
  ultimately show ?thesis using lt by blast
qed

theorem superseded_response_is_discarded_witness:
  "fst (run_start env0 True 0 q_fresh) = Pending 1 \<and>
   fst (run_start env0 True 1 (snd (run_start env0 True 0 q_fresh))) = Pending 2 \<and>
   data (steps env0 [Settle 2 (Fulfilled (Some 42)) 5]
           (snd (run_start env0 True 1 (snd (run_start env0 True 0 q_fresh))))) = Some 42 \<and>
   run_resolve env0 1 (Fulfilled (Some 7)) 9
     (steps env0 [Settle 2 (Fulfilled (Some 42)) 5]
        (snd (run_start env0 True 1 (snd (run_start env0 True 0 q_fresh)))))
   = (Resolved (Some 42),
      steps env0 [Settle 2 (Fulfilled (Some 42)) 5]
        (snd (run_start env0 True 1 (snd (run_start env0 True 0 q_fresh)))))"
proof -
  let ?q1 = "snd (run_start env0 True 0 q_fresh)"
  let ?q2 = "snd (run_start env0 True 1 ?q1)"
  have f1: "fst (run_start env0 True 0 q_fresh) = Pending 1"
    by (simp add: Query_eval)
  have f2: "fst (run_start env0 True 1 ?q1) = Pending 2"
    by (simp add: Query_eval)
  have s1: "run_start env0 True 0 q_fresh = (Pending 1, ?q1)"
    using f1 by (metis prod.collapse)
  have s2: "run_start env0 True 1 ?q1 = (Pending 2, ?q2)"
    using f2 by (metis prod.collapse)
  have d: "data (steps env0 [Settle 2 (Fulfilled (Some 42)) 5] ?q2) = Some 42"
    by (simp add: Query_eval)
  from superseded_response_is_discarded [OF s1 s2, of "Fulfilled (Some 7)" 9 "[Settle 2 (Fulfilled (Some 42)) 5]"]
  show ?thesis using f1 f2 d by simp
qed

text \<open>
  Claim C3 (as the code has it). When the fetch of an attempt fails with an error named
  \<open>AbortError\<close> and the Query holds an abort controller, the \<open>catch\<close> block returns
  at once: every field of the Query keeps its value (data, error, status, and the
  in-flight flag \<open>isFetching\<close> as well, which is not cleared), no callback is called,
  and the promise resolves with the current data.
\<close>

theorem abort_is_ignored:
  assumes "abortController q \<noteq> None" and "err_name e = ''AbortError''"
  shows "run_resolve env currentId (Failed e) t q = (Resolved (data q), q)"
  using assms by (simp add: run_resolve_def catch_body_def)

theorem abort_is_ignored_witness:
  "run_resolve env0 1 (Failed (Err ''AbortError'' ''cancelled'')) 5 (snd (run_start env0 True 0 q_fresh))
   = (Resolved None, snd (run_start env0 True 0 q_fresh))"
proof -
  have "abortController (snd (run_start env0 True 0 q_fresh)) \<noteq> None"
    by (simp add: Query_eval)
  moreover have "data (snd (run_start env0 True 0 q_fresh)) = None"
    by (simp add: Query_eval)
  ultimately show ?thesis
    using abort_is_ignored [of "snd (run_start env0 True 0 q_fresh)" "Err ''AbortError'' ''cancelled''" env0 1 5]
    by simp
qed

text \<open>
  The claim as written fails twice. An attempt is in flight (\<open>isFetching\<close> is true) and
  its fetch fails with \<open>AbortError\<close>: \<open>isFetching\<close> is still true afterwards. And on a
  host without \<open>AbortController\<close> the Query holds no controller, and the same failure
  moves the status to \<open>error\<close>.
\<close>

theorem abort_does_not_clear_in_flight_flag:
  "fst (run_start env0 True 0 q_fresh) = Pending 1 \<and>
   isFetching (snd (run_start env0 True 0 q_fresh)) \<and>
   isFetching (snd (run_resolve env0 1 (Failed (Err ''AbortError'' ''cancelled'')) 5
                      (snd (run_start env0 True 0 q_fresh)))) \<and>
   status (snd (run_resolve (env0\<lparr>hasAbortController := False\<rparr>) 1
                  (Failed (Err ''AbortError'' ''cancelled'')) 5
                  (snd (run_start (env0\<lparr>hasAbortController := False\<rparr>) True 0 q_fresh)))) = Error"
  by (simp add: Query_eval)

lemma run_start_Pending_fields:
  assumes "run_start env force t q = (Pending i, q')"
  shows "i = requestId q + 1" "requestId q' = i" "options q' = options q"
    "fetch_count q' = fetch_count q + 1" "lastUpdated q' = lastUpdated q" "data q' = data q"
  using assms
  by (auto simp: run_start_def Let_def fetch_count_def split: if_splits option.splits)

lemma success_commits:
  assumes "currentId = requestId q"
      and "get_select env q = None"
      and "onSuccess_returns (options q) raw"
      and "onSettled_returns (options q) raw None"
      and "run_resolve env currentId (Fulfilled raw) t q = (r, q')"
  shows "r = Resolved raw" "status q' = Success" "data q' = raw" "error q' = None"
    "lastUpdated q' = t" "\<not> isFetching q'" "options q' = options q"
    "fetch_count q' = fetch_count q"
  using assms
  by (auto simp: run_resolve_def try_body_def call_opt_def call_onSettled_def Let_def
                 onSuccess_returns_def onSettled_returns_def fetch_count_def
           split: option.splits)

text \<open>
  Claim C4 (as the code has it). For a Query in success status whose option
  \<open>forceRefetch\<close> is not set, a non-forced \<open>_run\<close> while the time since the last
  success is below the stale duration returns the cached data and leaves the Query as
  it is: the fetcher is not called. In particular, when a non-forced call has started
  a fetch and the fetch has succeeded at time \<open>t1\<close> (no \<open>select\<close>, callbacks that
  return), a second non-forced call less than the stale duration after \<open>t1\<close> returns
  the fetched value, and the fetcher has been called once by the two calls.
\<close>

theorem fresh_success_returns_cached:
  "(status q = Success \<and> t - lastUpdated q < get_staleTime env q \<and> \<not> forceRefetch (options q)
      \<longrightarrow> run_start env False t q = (Cached (data q), q)) \<and>
   (run_start env False t0 q0 = (Pending i, q1) \<and>
    run_resolve env i (Fulfilled raw) t1 q1 = (r, q2) \<and>
    get_select env q0 = None \<and> onSuccess_returns (options q0) raw \<and>
    onSettled_returns (options q0) raw None \<and>
    \<not> forceRefetch (options q0) \<and> t2 - t1 < get_staleTime env q0
      \<longrightarrow> run_start env False t2 q2 = (Cached raw, q2) \<and> fetch_count q2 = fetch_count q0 + 1)"
proof -
  have general: "run_start env False t q = (Cached (data q), q)"
    if "status q = Success" "t - lastUpdated q < get_staleTime env q" "\<not> forceRefetch (options q)"
    for q :: "'a Query" and t
    using that by (simp add: run_start_def isStale_def)
  have scenario: "run_start env False t2 q2 = (Cached raw, q2) \<and> fetch_count q2 = fetch_count q0 + 1"
    if s: "run_start env False t0 q0 = (Pending i, q1)"
      and rr: "run_resolve env i (Fulfilled raw) t1 q1 = (r, q2)"
      and sel: "get_select env q0 = None"
      and ok: "onSuccess_returns (options q0) raw" "onSettled_returns (options q0) raw None"
      and nf: "\<not> forceRefetch (options q0)" and fresh: "t2 - t1 < get_staleTime env q0"
  proof -
    note p = run_start_Pending_fields [OF s]
    have sel1: "get_select env q1 = None" using sel p(3) by (simp add: get_select_def)
    have cur: "i = requestId q1" using p(2) by simp
    note c = success_commits [OF cur sel1 _ _ rr]
    have c': "status q2 = Success" "data q2 = raw" "lastUpdated q2 = t1"
      "options q2 = options q0" "fetch_count q2 = fetch_count q0 + 1"
      using c ok p by simp_all
    have "get_staleTime env q2 = get_staleTime env q0" using c'(4) by (simp add: get_staleTime_def)
    with general [of q2 t2] c' nf fresh show ?thesis by simp
  qed
  show ?thesis using general scenario by blast
qed

text \<open>
  With the default stale duration of 60000 ms: a first non-forced call at time 0 fetches,
  the fetch succeeds at time 100, and a second non-forced call at time 60099 returns the
  cached value; the fetcher has been called once.
\<close>

theorem fresh_success_returns_cached_witness:
  "fetch_count (steps env0 [Run False 0, Settle 1 (Fulfilled (Some 42)) 100] q_fresh) = 1 \<and>
   run_start env0 False 60099 (steps env0 [Run False 0, Settle 1 (Fulfilled (Some 42)) 100] q_fresh)
     = (Cached (Some 42), steps env0 [Run False 0, Settle 1 (Fulfilled (Some 42)) 100] q_fresh)"
proof -
  let ?q = "steps env0 [Run False 0, Settle 1 (Fulfilled (Some 42)) 100] q_fresh"
  have "status ?q = Success" and "60099 - lastUpdated ?q < get_staleTime env0 ?q"
    and "\<not> forceRefetch (options ?q)" and "data ?q = Some 42" and "fetch_count ?q = 1"
    by (simp_all add: Query_eval)
  then show ?thesis
    using fresh_success_returns_cached [of ?q 60099 env0] by simp
qed

text \<open>
  The claim as written fails for a Query created with the option \<open>forceRefetch\<close>: in
  success status, 100 ms after its last success and with a stale duration of 60000 ms,
  a non-forced call starts attempt 2 and calls the fetcher a second time.
\<close>

theorem forceRefetch_option_refetches_fresh_data:
  "status (steps env0 [Run False 0, Settle 1 (Fulfilled (Some 42)) 100]
             (new_Query (KStr ''k'') 0 (no_options\<lparr>forceRefetch := True\<rparr>))) = Success \<and>
   lastUpdated (steps env0 [Run False 0, Settle 1 (Fulfilled (Some 42)) 100]
             (new_Query (KStr ''k'') 0 (no_options\<lparr>forceRefetch := True\<rparr>))) = 100 \<and>
   get_staleTime env0 (steps env0 [Run False 0, Settle 1 (Fulfilled (Some 42)) 100]
             (new_Query (KStr ''k'') 0 (no_options\<lparr>forceRefetch := True\<rparr>))) = 60000 \<and>
   fst (run_start env0 False 200
          (steps env0 [Run False 0, Settle 1 (Fulfilled (Some 42)) 100]
             (new_Query (KStr ''k'') 0 (no_options\<lparr>forceRefetch := True\<rparr>)))) = Pending 2 \<and>
   fetch_count (snd (run_start env0 False 200
          (steps env0 [Run False 0, Settle 1 (Fulfilled (Some 42)) 100]
             (new_Query (KStr ''k'') 0 (no_options\<lparr>forceRefetch := True\<rparr>))))) = 2"
  by (simp add: Query_eval)

text \<open>
  Claim C7 (as the code has it). The current attempt's fetch fails with \<open>e\<close>, and
  either \<open>e\<close> is not an \<open>AbortError\<close> or the Query holds no abort controller. Then
  status becomes \<open>error\<close>, the error signal holds \<open>e\<close>, data keeps its value, the
  in-flight flag is cleared, \<open>onError\<close> (when configured) is called with \<open>e\<close>, then,
  if \<open>onError\<close> returned, \<open>onSettled\<close> (when configured) is called with
  \<open>(undefined, e)\<close>, and the promise is rejected: with \<open>e\<close> when both callbacks
  returned.
\<close>

theorem genuine_failure_sets_error:
  assumes "currentId = requestId q"
      and "abortController q = None \<or> err_name e \<noteq> ''AbortError''"
      and "run_resolve env currentId (Failed e) t q = (r, q')"
  shows "status q' = Error \<and> error q' = Some e \<and> data q' = data q \<and> \<not> isFetching q' \<and>
         calls q' = calls q
            @ (if onError (options q) = None then [] else [OnError e])
            @ (if onError_returns (options q) e \<and> onSettled (options q) \<noteq> None
               then [OnSettled None (Some e)] else []) \<and>
         (\<exists>e'. r = Rejected e') \<and>
         (onError_returns (options q) e \<and> onSettled_returns (options q) None (Some e)
            \<longrightarrow> r = Rejected e)"
  using assms
  by (auto simp: run_resolve_def catch_body_def call_opt_def call_onSettled_def Let_def
                 onError_returns_def onSettled_returns_def
           split: option.splits)

theorem genuine_failure_sets_error_witness:
  "run_resolve env0 1 (Failed (Err ''NetworkError'' ''down'')) 5
     (snd (run_start env0 True 0
        (new_Query (KStr ''k'') 0
           (no_options\<lparr>initialData := Some 3, onError := Some (\<lambda>e. None),
                        onSettled := Some (\<lambda>x e. None)\<rparr>))))
   = (Rejected (Err ''NetworkError'' ''down''),
      snd (run_resolve env0 1 (Failed (Err ''NetworkError'' ''down'')) 5
     (snd (run_start env0 True 0
        (new_Query (KStr ''k'') 0
           (no_options\<lparr>initialData := Some 3, onError := Some (\<lambda>e. None),
                        onSettled := Some (\<lambda>x e. None)\<rparr>)))))) \<and>
   status (snd (run_resolve env0 1 (Failed (Err ''NetworkError'' ''down'')) 5
     (snd (run_start env0 True 0
        (new_Query (KStr ''k'') 0
           (no_options\<lparr>initialData := Some 3, onError := Some (\<lambda>e. None),
                        onSettled := Some (\<lambda>x e. None)\<rparr>)))))) = Error \<and>
   data (snd (run_resolve env0 1 (Failed (Err ''NetworkError'' ''down'')) 5
     (snd (run_start env0 True 0
        (new_Query (KStr ''k'') 0
           (no_options\<lparr>initialData := Some 3, onError := Some (\<lambda>e. None),
                        onSettled := Some (\<lambda>x e. None)\<rparr>)))))) = Some 3 \<and>
   calls (snd (run_resolve env0 1 (Failed (Err ''NetworkError'' ''down'')) 5
     (snd (run_start env0 True 0
        (new_Query (KStr ''k'') 0
           (no_options\<lparr>initialData := Some 3, onError := Some (\<lambda>e. None),
                        onSettled := Some (\<lambda>x e. None)\<rparr>))))))
     = [Fetch 1, OnError (Err ''NetworkError'' ''down''),
        OnSettled None (Some (Err ''NetworkError'' ''down''))]"
proof -
  let ?opts = "no_options\<lparr>initialData := Some (3::int), onError := Some (\<lambda>e. None),
                           onSettled := Some (\<lambda>x e. None)\<rparr>"
  let ?q = "snd (run_start env0 True 0 (new_Query (KStr ''k'') 0 ?opts))"
  let ?e = "Err ''NetworkError'' ''down''"
  let ?R = "run_resolve env0 1 (Failed ?e) 5 ?q"
  have a: "1 = requestId ?q" and b: "abortController ?q = None \<or> err_name ?e \<noteq> ''AbortError''"
    and c: "data ?q = Some 3" and d: "calls ?q = [Fetch 1]"
    and o: "options ?q = ?opts"
    by (simp_all add: Query_eval)
  have r: "?R = (fst ?R, snd ?R)" by simp
  have ok: "onError_returns ?opts ?e" "onSettled_returns ?opts None (Some ?e)"
    "onError ?opts \<noteq> None" "onSettled ?opts \<noteq> None"
    by (simp_all add: onError_returns_def onSettled_returns_def no_options_def)
  from genuine_failure_sets_error [OF a b r] c d o ok
  have "status (snd ?R) = Error" "data (snd ?R) = Some 3" "fst ?R = Rejected ?e"
     "calls (snd ?R) = [Fetch 1, OnError ?e, OnSettled None (Some ?e)]"
    by simp_all
  then show ?thesis by (simp add: prod_eq_iff)
qed

text \<open>
  The claim as written fails when \<open>onError\<close> throws: \<open>onSettled\<close> is then never
  called, and the promise is rejected with what \<open>onError\<close> threw, not with the
  fetch error.
\<close>

theorem throwing_onError_skips_onSettled:
  "requestId (snd (run_start env0 True 0
        (new_Query (KStr ''k'') 0
           (no_options\<lparr>onError := Some (\<lambda>e. Some (Err ''TypeError'' ''boom'')),
                        onSettled := Some (\<lambda>x e. None)\<rparr>)))) = 1 \<and>
   fst (run_resolve env0 1 (Failed (Err ''NetworkError'' ''down'')) 5
     (snd (run_start env0 True 0
        (new_Query (KStr ''k'') 0
           (no_options\<lparr>onError := Some (\<lambda>e. Some (Err ''TypeError'' ''boom'')),
                        onSettled := Some (\<lambda>x e. None)\<rparr>)))))
     = Rejected (Err ''TypeError'' ''boom'') \<and>
   calls (snd (run_resolve env0 1 (Failed (Err ''NetworkError'' ''down'')) 5
     (snd (run_start env0 True 0
        (new_Query (KStr ''k'') 0
           (no_options\<lparr>onError := Some (\<lambda>e. Some (Err ''TypeError'' ''boom'')),
                        onSettled := Some (\<lambda>x e. None)\<rparr>))))))
     = [Fetch 1, OnError (Err ''NetworkError'' ''down'')]"
  by (simp add: Query_eval)

section \<open>Properties of the query cache\<close>

lemma createQuery_registers:
  "createQuery k f opts t c = (a, c') \<Longrightarrow> queries c' (hashKey k) = Some a"
  by (auto simp: createQuery_def Let_def split: option.splits)

lemma createQuery_existing:
  "queries c (hashKey k) = Some a \<Longrightarrow> createQuery k f opts t c = (a, c)"
  by (simp add: createQuery_def)

lemma createQuery_fresh:
  assumes "queries c (hashKey k) = None" and "createQuery k f opts t c = (a, c')"
  shows "\<exists>q. heap c' a = Some q \<and> key q = k \<and> fetcher q = f \<and> options q = opts"
  using assms
  by (auto simp: createQuery_def Let_def refetch_def run_start_def new_Query_def
           split: option.splits)

text \<open>
  Claim C8. Within one QueryClient, a second \<open>createQuery\<close> with the same key returns
  the very Query object (the same address) that the first call returned, and changes
  nothing in the client: the fetcher and the options of the second call are dropped.
  When the first call created the Query, the object holds the first call's key, fetcher
  and options, before and after the second call.
\<close>

theorem createQuery_same_key_same_instance:
  assumes "createQuery k f1 o1 t1 c = (a, c1)"
  shows "createQuery k f2 o2 t2 c1 = (a, c1) \<and>
         (queries c (hashKey k) = None \<longrightarrow>
            (\<exists>q. heap c1 a = Some q \<and> key q = k \<and> fetcher q = f1 \<and> options q = o1))"
proof -
  have "queries c1 (hashKey k) = Some a"
    using assms by (rule createQuery_registers)
  then have "createQuery k f2 o2 t2 c1 = (a, c1)"
    by (rule createQuery_existing)
  moreover have "queries c (hashKey k) = None \<longrightarrow>
      (\<exists>q. heap c1 a = Some q \<and> key q = k \<and> fetcher q = f1 \<and> options q = o1)"
    using assms createQuery_fresh by blast
  ultimately show ?thesis by simp
qed

theorem createQuery_same_key_same_instance_witness:
  "fst (createQuery (KStr ''k'') 7 (no_options :: int options) 0 (new_QueryClient True)) = 0 \<and>
   fst (createQuery (KStr ''k'') 8 (no_options\<lparr>forceRefetch := True\<rparr>) 5
          (snd (createQuery (KStr ''k'') 7 (no_options :: int options) 0 (new_QueryClient True)))) = 0 \<and>
   map_option fetcher
     (heap (snd (createQuery (KStr ''k'') 8 (no_options\<lparr>forceRefetch := True\<rparr>) 5
          (snd (createQuery (KStr ''k'') 7 (no_options :: int options) 0 (new_QueryClient True))))) 0)
     = Some 7"
proof -
  let ?c = "new_QueryClient True :: int QueryClient"
  obtain a c1 where first: "createQuery (KStr ''k'') 7 (no_options :: int options) 0 ?c = (a, c1)"
    by (cases "createQuery (KStr ''k'') 7 (no_options :: int options) 0 ?c")
  have a0: "a = 0"
    using first by (auto simp: createQuery_def new_QueryClient_def Let_def)
  have fresh: "queries ?c (hashKey (KStr ''k'')) = None"
    by (simp add: new_QueryClient_def)
  from createQuery_same_key_same_instance [OF first, of 8 "no_options\<lparr>forceRefetch := True\<rparr>" 5] fresh
  show ?thesis using first a0 by auto
qed

lemma hashKey_collision: "hashKey (KNum 1) = hashKey (KStr ''1'')"
  by (simp add: show_int_def)

text \<open>
  Claim C10. The string \<open>"1"\<close> and the number \<open>1\<close> are different keys with the same
  hash \<open>"1"\<close>. So, in any QueryClient, \<open>createQuery\<close> with the number \<open>1\<close> after
  \<open>createQuery\<close> with the string \<open>"1"\<close> returns the Query of the string key and
  creates nothing.
\<close>

theorem hashKey_collision_shares_query:
  "KStr ''1'' \<noteq> KNum 1 \<and>
   hashKey (KStr ''1'') = ''1'' \<and> hashKey (KNum 1) = ''1'' \<and>
   createQuery (KNum 1) f2 o2 t2 (snd (createQuery (KStr ''1'') f1 o1 t1 c))
     = createQuery (KStr ''1'') f1 o1 t1 c"
proof -
  obtain a c1 where first: "createQuery (KStr ''1'') f1 o1 t1 c = (a, c1)"
    by (cases "createQuery (KStr ''1'') f1 o1 t1 c")
  then have "queries c1 (hashKey (KStr ''1'')) = Some a"
    by (rule createQuery_registers)
  then have "queries c1 (hashKey (KNum 1)) = Some a"
    by (simp only: hashKey_collision)
  then have "createQuery (KNum 1) f2 o2 t2 c1 = (a, c1)"
    by (rule createQuery_existing)
  with first show ?thesis by (simp add: show_int_def)
qed

theorem hashKey_collision_shares_query_witness:
  "fst (createQuery (KNum 1) 8 (no_options :: int options) 5
          (snd (createQuery (KStr ''1'') 7 no_options 0 (new_QueryClient True)))) = 0 \<and>
   next_addr (snd (createQuery (KNum 1) 8 (no_options :: int options) 5
          (snd (createQuery (KStr ''1'') 7 no_options 0 (new_QueryClient True))))) = 1"
proof -
  let ?c = "new_QueryClient True :: int QueryClient"
  obtain a c1 where first: "createQuery (KStr ''1'') 7 (no_options :: int options) 0 ?c = (a, c1)"
    by (cases "createQuery (KStr ''1'') 7 (no_options :: int options) 0 ?c")
  then have "a = 0" and "next_addr c1 = 1"
    by (auto simp: createQuery_def new_QueryClient_def Let_def)
  then show ?thesis
    using first hashKey_collision_shares_query [of 8 no_options 5 7 no_options 0 ?c]
    by simp
qed

end
